theory Spec2Isabelle
  imports Complex_Main "HOL-Library.Word"
begin

section \<open>Template matching on edge grids: the model of template.go\<close>

text \<open>
  The Go package builds a template from an image (resize, grayscale, Sobel edges,
  mean-centring) and searches a scene grid for it with a sliding-window normalised
  cross-correlation. This theory embeds \<open>NewTemplateFromImage\<close>, \<open>FindMatch\<close> and
  \<open>sobelEdge\<close> and states the properties of the specification over them.

  Conventions of the embedding.
  \<^item> A Go \<open>int\<close> is an \<open>int\<close> of HOL; where a result can leave the 64-bit range
    (the loop increments \<open>i += stride\<close>, the loop bounds \<open>height - t.kernelHeight\<close>, the
    products, the Sobel accumulators, \<open>int(newWidth)\<close>) the wrap-around is written out
    with \<open>wrap64\<close>. The index sums \<open>i + y\<close>, \<open>j + x\<close> are only computed for
    \<open>0 \<le> y < kernelHeight\<close> with \<open>i\<close> below the loop bound and cannot wrap; the
    differences \<open>Max - Min\<close> of image bounds are taken as they are.
  \<^item> \<open>float64\<close> and \<open>float32\<close> are two type parameters \<open>'d\<close> and \<open>'s\<close>. Their arithmetic
    and comparison are the operations of the purely syntactic classes \<open>plus\<close>, \<open>minus\<close>,
    \<open>times\<close>, \<open>inverse\<close>, \<open>zero\<close>, \<open>one\<close>, \<open>ord\<close>, which have no axioms; square root and
    the conversions are the fields of a record \<open>float_ops\<close> passed as a parameter. Every
    theorem therefore holds for any floating-point semantics, IEEE 754 included, and a
    property of the arithmetic that a theorem needs appears as a hypothesis. The
    instance \<open>exact_ops\<close> over the reals (no rounding, conversions to integers discard
    the fraction) serves to evaluate examples.
  \<^item> A run-time panic and the returned error are values \<open>Inl e\<close>; a loop that may run
    forever is a \<open>partial_function\<close> into \<open>option\<close>, where \<open>None\<close> is "does not return".
\<close>

subsection \<open>Errors, machine integers, slices\<close>

datatype error = IndexOutOfRange | NegativeLen | DimensionMismatch

definition wrap64 :: "int \<Rightarrow> int" where
  \<comment> \<open>the value of a 64-bit signed result\<close>
  "wrap64 n = (n + 2 ^ 63) mod 2 ^ 64 - 2 ^ 63"

type_synonym 'a grid = "'a list list"

definition index :: "'a list \<Rightarrow> int \<Rightarrow> error + 'a" where
  \<comment> \<open>\<open>xs[i]\<close>: panics out of range\<close>
  "index xs i = (if 0 \<le> i \<and> i < int (length xs) then Inr (xs ! nat i) else Inl IndexOutOfRange)"

definition index2 :: "'a grid \<Rightarrow> int \<Rightarrow> int \<Rightarrow> error + 'a" where
  \<comment> \<open>\<open>g[y][x]\<close>\<close>
  "index2 g y x = (case index g y of Inl e \<Rightarrow> Inl e | Inr row \<Rightarrow> index row x)"

definition store2 :: "'a grid \<Rightarrow> int \<Rightarrow> int \<Rightarrow> 'a \<Rightarrow> error + 'a grid" where
  \<comment> \<open>\<open>g[y][x] = v\<close>\<close>
  "store2 g y x v =
     (case index g y of
        Inl e \<Rightarrow> Inl e
      | Inr row \<Rightarrow>
          if 0 \<le> x \<and> x < int (length row) then Inr (g[nat y := row[nat x := v]])
          else Inl IndexOutOfRange)"

definition make_slice :: "int \<Rightarrow> 'a \<Rightarrow> error + 'a list" where
  \<comment> \<open>\<open>make([]T, n)\<close>: \<open>n\<close> zero values; panics when \<open>n\<close> is negative\<close>
  "make_slice n z = (if n < 0 then Inl NegativeLen else Inr (replicate (nat n) z))"

subsection \<open>Loops\<close>

text \<open>
  \<open>for_each [a..b] body st\<close> is the counting loop \<open>for y := a; y <= b; y++ { body }\<close>
  over the state \<open>st\<close>; it stops at the first panic.
\<close>

fun for_each :: "int list \<Rightarrow> (int \<Rightarrow> 'a \<Rightarrow> error + 'a) \<Rightarrow> 'a \<Rightarrow> error + 'a" where
  "for_each [] body st = Inr st"
| "for_each (i # is) body st =
     (case body i st of Inl e \<Rightarrow> Inl e | Inr st' \<Rightarrow> for_each is body st')"

text \<open>
  \<open>for_loop n stride body i st\<close> is \<open>for ; i < n; i += stride { body }\<close>, the shape of the
  two scan loops of \<open>FindMatch\<close>. Nothing makes \<open>stride\<close> positive, so the loop may not
  return.
\<close>

partial_function (option) for_loop ::
  "int \<Rightarrow> int \<Rightarrow> (int \<Rightarrow> 'a \<Rightarrow> (error + 'a) option) \<Rightarrow> int \<Rightarrow> 'a \<Rightarrow> (error + 'a) option" where
  "for_loop n stride body i st =
     (if i < n then
        (case body i st of
           None \<Rightarrow> None
         | Some (Inl e) \<Rightarrow> Some (Inl e)
         | Some (Inr st') \<Rightarrow> for_loop n stride body (wrap64 (i + stride)) st')
      else Some (Inr st))"

declare for_loop.simps [code]

subsection \<open>Floating point\<close>

record ('d, 's) float_ops =
  sqrt64 :: "'d \<Rightarrow> 'd"               \<comment> \<open>\<open>math.Sqrt\<close>\<close>
  float32_of :: "'d \<Rightarrow> 's"           \<comment> \<open>\<open>float32(x)\<close> of a \<open>float64\<close>\<close>
  float64_of :: "'s \<Rightarrow> 'd"           \<comment> \<open>\<open>float64(x)\<close> of a \<open>float32\<close>\<close>
  float64_of_int :: "int \<Rightarrow> 'd"      \<comment> \<open>\<open>float64(n)\<close> of an integer\<close>
  float32_of_int :: "int \<Rightarrow> 's"      \<comment> \<open>\<open>float32(n)\<close> of an integer\<close>
  int_of :: "'d \<Rightarrow> int"               \<comment> \<open>\<open>int(x)\<close> of a \<open>float64\<close>\<close>
  int16_of :: "'d \<Rightarrow> int"             \<comment> \<open>\<open>int16(x)\<close> of a \<open>float64\<close>\<close>
  uint_of :: "'d \<Rightarrow> int"              \<comment> \<open>\<open>uint(x)\<close> of a \<open>float64\<close>\<close>

definition trunc :: "real \<Rightarrow> int" where
  \<comment> \<open>the fraction is discarded\<close>
  "trunc x = (if 0 \<le> x then \<lfloor>x\<rfloor> else \<lceil>x\<rceil>)"

definition exact_ops :: "(real, real) float_ops" where
  "exact_ops = \<lparr> sqrt64 = sqrt, float32_of = (\<lambda>x. x), float64_of = (\<lambda>x. x),
     float64_of_int = of_int, float32_of_int = of_int,
     int_of = trunc, int16_of = trunc, uint_of = trunc \<rparr>"

subsection \<open>Templates and matches\<close>

record ('d, 's) TemplateFromImage =
  kernel :: "'d grid"
  kernelWidth :: int
  kernelHeight :: int
  sumKernel :: 's
  originalSize :: "int \<times> int"   \<comment> \<open>\<open>image.Point{X, Y}\<close>\<close>

record 's Match =
  X :: int
  Y :: int
  Width :: int
  Height :: int
  Score :: 's

subsection \<open>FindMatch\<close>

definition crop_sum :: "('d::{plus,zero}) grid \<Rightarrow> int \<Rightarrow> int \<Rightarrow> int \<Rightarrow> int \<Rightarrow> error + 'd" where
  \<comment> \<open>the first pair of loops over the window: \<open>cropSum += image[i+y][j+x]\<close>\<close>
  "crop_sum scene kh kw i j =
     for_each [0..kh - 1] (\<lambda>y.
       for_each [0..kw - 1] (\<lambda>x cropSum.
         case index2 scene (i + y) (j + x) of
           Inl e \<Rightarrow> Inl e
         | Inr v \<Rightarrow> Inr (cropSum + v))) 0"

definition crop_products ::
  "('d::{plus,minus,times,zero}) grid \<Rightarrow> 'd grid \<Rightarrow> int \<Rightarrow> int \<Rightarrow> 'd \<Rightarrow> int \<Rightarrow> int \<Rightarrow> error + 'd \<times> 'd" where
  \<comment> \<open>the second pair of loops: the state is \<open>(sumProduct, sumCropSquared)\<close>\<close>
  "crop_products scene kern kh kw cropMean i j =
     for_each [0..kh - 1] (\<lambda>y.
       for_each [0..kw - 1] (\<lambda>x (sumProduct, sumCropSquared).
         case index2 scene (i + y) (j + x) of
           Inl e \<Rightarrow> Inl e
         | Inr v \<Rightarrow>
             let normalizedCrop = v - cropMean in
             (case index2 kern y x of
                Inl e \<Rightarrow> Inl e
              | Inr k \<Rightarrow> Inr (sumProduct + normalizedCrop * k,
                             sumCropSquared + normalizedCrop * normalizedCrop)))) (0, 0)"

definition window_sums ::
  "(('d::{plus,minus,times,inverse,zero}), 's) float_ops \<Rightarrow> ('d, 's) TemplateFromImage \<Rightarrow> 'd grid \<Rightarrow>
     int \<Rightarrow> int \<Rightarrow> error + 'd \<times> 'd" where
  \<comment> \<open>\<open>(sumProduct, sumCropSquared)\<close> of the window with top-left corner \<open>(i, j)\<close>\<close>
  "window_sums ops t scene i j =
     (case crop_sum scene (kernelHeight t) (kernelWidth t) i j of
        Inl e \<Rightarrow> Inl e
      | Inr cropSum \<Rightarrow>
          let cropMean = cropSum / float64_of_int ops (wrap64 (kernelHeight t * kernelWidth t))
          in crop_products scene (kernel t) (kernelHeight t) (kernelWidth t) cropMean i j)"

definition denominator_of ::
  "('d, 's::times) float_ops \<Rightarrow> ('d, 's) TemplateFromImage \<Rightarrow> 'd \<Rightarrow> 's" where
  \<comment> \<open>\<open>float32(math.Sqrt(float64(float32(sumCropSquared) * t.sumKernel)))\<close>\<close>
  "denominator_of ops t sumCropSquared =
     float32_of ops (sqrt64 ops (float64_of ops (float32_of ops sumCropSquared * sumKernel t)))"

definition rescale :: "(('d::{times,inverse,one}), 's) float_ops \<Rightarrow> 'd \<Rightarrow> int \<Rightarrow> int" where
  \<comment> \<open>\<open>int(float64(j) * 1 / scale)\<close>\<close>
  "rescale ops scale j = int_of ops (float64_of_int ops j * 1 / scale)"

definition match_window ::
  "(('d::{plus,minus,times,inverse,zero,one}), ('s::{times,inverse,zero,ord})) float_ops \<Rightarrow>
     ('d, 's) TemplateFromImage \<Rightarrow> 'd grid \<Rightarrow> 's \<Rightarrow> 'd \<Rightarrow> int \<Rightarrow> int \<Rightarrow>
     's Match list \<Rightarrow> error + 's Match list" where
  \<comment> \<open>the body of the scan loops at the window \<open>(i, j)\<close>\<close>
  "match_window ops t scene threshold scale i j matches =
     (case window_sums ops t scene i j of
        Inl e \<Rightarrow> Inl e
      | Inr (sumProduct, sumCropSquared) \<Rightarrow>
          let denominator = denominator_of ops t sumCropSquared in
          if 0 < denominator then
            let corr = float32_of ops sumProduct / denominator in
            if threshold < corr then
              Inr (matches @ [\<lparr> X = rescale ops scale j, Y = rescale ops scale i,
                                Width = fst (originalSize t), Height = snd (originalSize t),
                                Score = corr \<rparr>])
            else Inr matches
          else Inr matches)"

definition scan_windows ::
  "('d, 's) TemplateFromImage \<Rightarrow> 'd grid \<Rightarrow> int \<Rightarrow> (int \<Rightarrow> int \<Rightarrow> 'a \<Rightarrow> error + 'a) \<Rightarrow> 'a \<Rightarrow>
     (error + 'a) option" where
  \<comment> \<open>the two scan loops of \<open>FindMatch\<close> (lines 105 and 106) around a loop body\<close>
  "scan_windows t scene stride body st =
     (let height = int (length scene);
          width = int (length (scene ! 0))
      in for_loop (wrap64 (height - kernelHeight t)) stride (\<lambda>i.
           for_loop (wrap64 (width - kernelWidth t)) stride (\<lambda>j st'. Some (body i j st')) 0) 0 st)"

definition FindMatch ::
  "(('d::{plus,minus,times,inverse,zero,one}), ('s::{times,inverse,zero,ord})) float_ops \<Rightarrow>
     ('d, 's) TemplateFromImage \<Rightarrow> 'd grid \<Rightarrow> int \<Rightarrow> 's \<Rightarrow> 'd \<Rightarrow> (error + 's Match list) option" where
  "FindMatch ops t scene stride threshold scale =
     (if length scene = 0 then Some (Inr [])
      else scan_windows t scene stride (match_window ops t scene threshold scale) [])"

definition window_positions ::
  "('d, 's) TemplateFromImage \<Rightarrow> 'd grid \<Rightarrow> int \<Rightarrow> (error + (int \<times> int) list) option" where
  \<comment> \<open>the window positions the scan loops reach, in order: the loops run with a body
      that only records \<open>(i, j)\<close>\<close>
  "window_positions t scene stride =
     (if length scene = 0 then Some (Inr [])
      else scan_windows t scene stride (\<lambda>i j ps. Inr (ps @ [(i, j)])) [])"

subsection \<open>Images\<close>

text \<open>
  An \<open>image.Image\<close> is its bounds and its pixel function \<open>At\<close>; the colour type \<open>'c\<close> is
  a parameter. The two calls into libraries are parameters of the model:
  \<open>resizeImage\<close> (\<open>resize.Resize(newWidth, 0, img, resize.Lanczos3)\<close>) and the grey level
  \<open>color.GrayModel.Convert(c).(color.Gray).Y\<close>, a \<open>uint8\<close>.
\<close>

record 'c Image =
  MinX :: int
  MinY :: int
  MaxX :: int
  MaxY :: int
  At :: "int \<Rightarrow> int \<Rightarrow> 'c"

definition Dx :: "'c Image \<Rightarrow> int" where
  "Dx img = MaxX img - MinX img"

definition Dy :: "'c Image \<Rightarrow> int" where
  "Dy img = MaxY img - MinY img"

subsection \<open>sobelEdge\<close>

definition store :: "'a list \<Rightarrow> int \<Rightarrow> 'a \<Rightarrow> error + 'a list" where
  \<comment> \<open>\<open>xs[i] = v\<close>\<close>
  "store xs i v = (if 0 \<le> i \<and> i < int (length xs) then Inr (xs[nat i := v]) else Inl IndexOutOfRange)"

definition make_grid :: "int \<Rightarrow> int \<Rightarrow> 'a \<Rightarrow> error + 'a grid" where
  \<comment> \<open>\<open>g := make([][]T, height); for y := range g { g[y] = make([]T, width) }\<close>\<close>
  "make_grid height width z =
     (case make_slice height [] of
        Inl e \<Rightarrow> Inl e
      | Inr g \<Rightarrow>
          for_each [0..int (length g) - 1] (\<lambda>y g.
            case make_slice width z of
              Inl e \<Rightarrow> Inl e
            | Inr row \<Rightarrow> store g y row) g)"

definition gx :: "int list list" where
  "gx = [[-1, 0, 1], [-2, 0, 2], [-1, 0, 1]]"

definition gy :: "int list list" where
  "gy = [[-1, -2, -1], [0, 0, 0], [1, 2, 1]]"

definition sobel_sums :: "('d, 's) float_ops \<Rightarrow> 'd grid \<Rightarrow> int \<Rightarrow> int \<Rightarrow> error + int \<times> int" where
  \<comment> \<open>the loops over \<open>ky\<close> and \<open>kx\<close>: the state is \<open>(sx, sy)\<close>\<close>
  "sobel_sums ops gray_img y x =
     for_each [-1..1] (\<lambda>ky.
       for_each [-1..1] (\<lambda>kx (sx, sy).
         case index2 gray_img (y + ky) (x + kx) of
           Inl e \<Rightarrow> Inl e
         | Inr val \<Rightarrow>
             Inr (wrap64 (sx + wrap64 (gx ! nat (ky + 1) ! nat (kx + 1) * int_of ops val)),
                  wrap64 (sy + wrap64 (gy ! nat (ky + 1) ! nat (kx + 1) * int_of ops val))))) (0, 0)"

definition sobel_pixel ::
  "(('d::zero), 's) float_ops \<Rightarrow> 'd grid \<Rightarrow> int \<Rightarrow> int \<Rightarrow> int \<Rightarrow> 'd grid \<Rightarrow> error + 'd grid" where
  \<comment> \<open>the body of the loops over \<open>y\<close> and \<open>x\<close>: the state is \<open>edge\<close>\<close>
  "sobel_pixel ops gray_img threshold y x edge =
     (case sobel_sums ops gray_img y x of
        Inl e \<Rightarrow> Inl e
      | Inr (sx, sy) \<Rightarrow>
          (case store2 edge y x
                  (sqrt64 ops (float64_of_int ops (wrap64 (wrap64 (sx * sx) + wrap64 (sy * sy))))) of
             Inl e \<Rightarrow> Inl e
           | Inr edge' \<Rightarrow>
               (case index2 edge' y x of
                  Inl e \<Rightarrow> Inl e
                | Inr v \<Rightarrow> if int16_of ops v < threshold then store2 edge' y x 0 else Inr edge')))"

definition sobelEdge ::
  "(('d::zero), 's) float_ops \<Rightarrow> 'd grid \<Rightarrow> int \<Rightarrow> int \<Rightarrow> int \<Rightarrow> error + 'd grid" where
  "sobelEdge ops gray_img width height threshold =
     (case make_grid height width 0 of
        Inl e \<Rightarrow> Inl e
      | Inr edge \<Rightarrow>
          for_each [1..height - 1 - 1] (\<lambda>y.
            for_each [1..width - 1 - 1] (\<lambda>x. sobel_pixel ops gray_img threshold y x)) edge)"

subsection \<open>NewTemplateFromImage\<close>

definition target_width :: "(('d::times), 's) float_ops \<Rightarrow> 'c Image \<Rightarrow> 'd \<Rightarrow> int" where
  \<comment> \<open>\<open>newWidth := uint(float64(originalSize.X) * scale)\<close>\<close>
  "target_width ops img scale = uint_of ops (float64_of_int ops (Dx img) * scale)"

definition gray_matrix ::
  "('d, 's) float_ops \<Rightarrow> ('c \<Rightarrow> 8 word) \<Rightarrow> 'c Image \<Rightarrow> int \<Rightarrow> int \<Rightarrow> 'd grid \<Rightarrow> error + 'd grid" where
  \<comment> \<open>step 2: \<open>kernel[y][x] = float64(color.GrayModel.Convert(c).(color.Gray).Y)\<close>\<close>
  "gray_matrix ops gray img width height kernel0 =
     for_each [0..height - 1] (\<lambda>y.
       for_each [0..width - 1] (\<lambda>x kern.
         let c = At img (x + MinX img) (y + MinY img);
             grayValue = float64_of_int ops (uint (gray c))
         in store2 kern y x grayValue)) kernel0"

definition kernel_sum ::
  "('d, ('s::{plus,zero})) float_ops \<Rightarrow> 'd grid \<Rightarrow> int \<Rightarrow> int \<Rightarrow> error + 's" where
  \<comment> \<open>\<open>kernelSum += float32(edgeKernel[y][x])\<close>\<close>
  "kernel_sum ops edgeKernel width height =
     for_each [0..height - 1] (\<lambda>y.
       for_each [0..width - 1] (\<lambda>x kernelSum.
         case index2 edgeKernel y x of
           Inl e \<Rightarrow> Inl e
         | Inr v \<Rightarrow> Inr (kernelSum + float32_of ops v))) 0"

definition subtract_mean ::
  "('d, ('s::minus)) float_ops \<Rightarrow> 's \<Rightarrow> int \<Rightarrow> int \<Rightarrow> 'd grid \<Rightarrow> error + 'd grid" where
  \<comment> \<open>step 4: \<open>edgeKernel[y][x] = float64(float32(edgeKernel[y][x]) - kernelMean)\<close>\<close>
  "subtract_mean ops kernelMean width height edgeKernel =
     for_each [0..height - 1] (\<lambda>y.
       for_each [0..width - 1] (\<lambda>x edge.
         case index2 edge y x of
           Inl e \<Rightarrow> Inl e
         | Inr v \<Rightarrow> store2 edge y x (float64_of ops (float32_of ops v - kernelMean)))) edgeKernel"

definition sum_squares ::
  "('d, ('s::{plus,times,zero})) float_ops \<Rightarrow> 'd grid \<Rightarrow> int \<Rightarrow> int \<Rightarrow> error + 's" where
  \<comment> \<open>\<open>sumKernel += float32(edgeKernel[y][x]) * float32(edgeKernel[y][x])\<close>\<close>
  "sum_squares ops edgeKernel width height =
     for_each [0..height - 1] (\<lambda>y.
       for_each [0..width - 1] (\<lambda>x sumKernel.
         case index2 edgeKernel y x of
           Inl e \<Rightarrow> Inl e
         | Inr v \<Rightarrow>
             (case index2 edgeKernel y x of
                Inl e \<Rightarrow> Inl e
              | Inr v' \<Rightarrow> Inr (sumKernel + float32_of ops v * float32_of ops v')))) 0"

definition NewTemplateFromImage ::
  "(('d::{times,zero}), ('s::{plus,minus,times,inverse,zero})) float_ops \<Rightarrow>
     ('c Image \<Rightarrow> int \<Rightarrow> 'c Image) \<Rightarrow> ('c \<Rightarrow> 8 word) \<Rightarrow> 'c Image \<Rightarrow> 'd \<Rightarrow>
     error + ('d, 's) TemplateFromImage" where
  "NewTemplateFromImage ops resizeImage gray img scale =
     (let originalSize = (Dx img, Dy img);
          newWidth = target_width ops img scale;
          img' = resizeImage img newWidth;
          width = Dx img'
      in if width \<noteq> wrap64 newWidth then Inl DimensionMismatch
         else
           let height = Dy img' in
           (case make_grid height width 0 of
              Inl e \<Rightarrow> Inl e
            | Inr kernel0 \<Rightarrow>
           (case gray_matrix ops gray img' width height kernel0 of
              Inl e \<Rightarrow> Inl e
            | Inr kern \<Rightarrow>
           (case sobelEdge ops kern width height 50 of
              Inl e \<Rightarrow> Inl e
            | Inr edgeMatrix \<Rightarrow>
           (case kernel_sum ops edgeMatrix width height of
              Inl e \<Rightarrow> Inl e
            | Inr kernelSum \<Rightarrow>
                let kernelMean = kernelSum / float32_of_int ops (wrap64 (height * width)) in
           (case subtract_mean ops kernelMean width height edgeMatrix of
              Inl e \<Rightarrow> Inl e
            | Inr edgeKernel \<Rightarrow>
           (case sum_squares ops edgeKernel width height of
              Inl e \<Rightarrow> Inl e
            | Inr sumKernel' \<Rightarrow>
                Inr \<lparr> kernel = edgeKernel, kernelWidth = width, kernelHeight = height,
                      sumKernel = sumKernel', originalSize = originalSize \<rparr>)))))))"

subsection \<open>Notions used in the statements\<close>

text \<open>The values of a 64-bit signed integer.\<close>

definition int64 :: "int \<Rightarrow> bool" where
  "int64 n = (- (2 ^ 63) \<le> n \<and> n < 2 ^ 63)"

text \<open>
  The positions \<open>i, i + s, i + 2 s, \<dots>\<close> below \<open>n\<close>: what a scan loop visits when
  its stride is positive and no increment wraps around.
\<close>

function steps :: "int \<Rightarrow> int \<Rightarrow> int \<Rightarrow> int list" where
  "steps i n s = (if 0 < s \<and> i < n then i # steps (i + s) n s else [])"
  by pat_completeness auto
termination
  by (relation "measure (\<lambda>(i, n, s). nat (n - i))") auto

declare steps.simps [simp del]

text \<open>
  A scene is rectangular when every row is as long as the first, whose length
  \<open>FindMatch\<close> takes as the width. A grid has the shape \<open>height \<times> width\<close> when it has
  \<open>height\<close> rows of \<open>width\<close> cells. A template is well formed when its kernel has the
  shape \<open>kernelHeight \<times> kernelWidth\<close>; \<open>NewTemplateFromImage\<close> builds no other.
\<close>

definition rectangular :: "'a grid \<Rightarrow> bool" where
  "rectangular g = (\<forall>row\<in>set g. length row = length (g ! 0))"

definition has_shape :: "int \<Rightarrow> int \<Rightarrow> 'a grid \<Rightarrow> bool" where
  "has_shape height width g =
     (0 \<le> height \<and> 0 \<le> width \<and> int (length g) = height \<and>
      (\<forall>row\<in>set g. int (length row) = width))"

definition template_ok :: "('d, 's) TemplateFromImage \<Rightarrow> bool" where
  "template_ok t = has_shape (kernelHeight t) (kernelWidth t) (kernel t)"

text \<open>
  \<open>emitted ops t scene threshold scale m\<close>: the match \<open>m\<close> is the record that the loop body
  appends at some window \<open>(i, j)\<close> below the loop bounds, whose denominator is positive
  and whose correlation exceeds the threshold.
\<close>

definition emitted ::
  "(('d::{plus,minus,times,inverse,zero,one}), ('s::{times,inverse,zero,ord})) float_ops \<Rightarrow>
     ('d, 's) TemplateFromImage \<Rightarrow> 'd grid \<Rightarrow> 's \<Rightarrow> 'd \<Rightarrow> 's Match \<Rightarrow> bool" where
  "emitted ops t scene threshold scale m =
     (\<exists>i j sp sq.
        i < wrap64 (int (length scene) - kernelHeight t) \<and>
        j < wrap64 (int (length (scene ! 0)) - kernelWidth t) \<and>
        window_sums ops t scene i j = Inr (sp, sq) \<and>
        0 < denominator_of ops t sq \<and>
        threshold < float32_of ops sp / denominator_of ops t sq \<and>
        m = \<lparr> X = rescale ops scale j, Y = rescale ops scale i,
              Width = fst (originalSize t), Height = snd (originalSize t),
              Score = float32_of ops sp / denominator_of ops t sq \<rparr>)"

text \<open>
  The words of the specification for the Sobel detector: the standard kernels \<open>Gx\<close> and
  \<open>Gy\<close>, the 3x3 convolution of a kernel with the grey levels around \<open>(y, x)\<close>, and the
  value of an interior cell, the magnitude \<open>sqrt (sx\<^sup>2 + sy\<^sup>2)\<close> or zero when it is below
  the threshold. The grey level of a cell is \<open>int(val)\<close>, as the code converts it; the
  test against the threshold is the code's, on \<open>int16(magnitude)\<close>.
\<close>

definition Gx :: "int list list" where
  "Gx = [[-1, 0, 1], [-2, 0, 2], [-1, 0, 1]]"

definition Gy :: "int list list" where
  "Gy = [[-1, -2, -1], [0, 0, 0], [1, 2, 1]]"

definition convolve3 :: "int list list \<Rightarrow> (int \<Rightarrow> int \<Rightarrow> int) \<Rightarrow> int \<Rightarrow> int \<Rightarrow> int" where
  "convolve3 k p y x =
     (\<Sum>ky\<leftarrow>[-1, 0, 1]. \<Sum>kx\<leftarrow>[-1, 0, 1]. k ! nat (ky + 1) ! nat (kx + 1) * p (y + ky) (x + kx))"

definition level :: "('d, 's) float_ops \<Rightarrow> 'd grid \<Rightarrow> int \<Rightarrow> int \<Rightarrow> int" where
  "level ops g y x = int_of ops (g ! nat y ! nat x)"

definition sobel_value :: "(('d::zero), 's) float_ops \<Rightarrow> int \<Rightarrow> int \<Rightarrow> int \<Rightarrow> 'd" where
  "sobel_value ops threshold sx sy =
     (let magnitude = sqrt64 ops (float64_of_int ops (sx * sx + sy * sy))
      in if int16_of ops magnitude < threshold then 0 else magnitude)"

text \<open>
  The words of the specification for template construction: a sum \<open>\<Sigma>\<close> of floating
  point values is the sum in slice order, from zero; the grey level of a pixel; and the
  mean-centred grid, every cell of the edge grid minus the arithmetic mean of all its
  cells (in \<open>float32\<close>, as \<open>kernelSum\<close> and \<open>kernelMean\<close> are).
\<close>

definition float_sum :: "('a::{plus,zero}) list \<Rightarrow> 'a" where
  "float_sum xs = foldl (+) 0 xs"

definition gray_level :: "('c \<Rightarrow> 8 word) \<Rightarrow> 'c Image \<Rightarrow> int \<Rightarrow> int \<Rightarrow> int" where
  "gray_level gray img y x = uint (gray (At img (x + MinX img) (y + MinY img)))"

definition mean_centred :: "('d, ('s::{plus,minus,inverse,zero})) float_ops \<Rightarrow> 'd grid \<Rightarrow> int \<Rightarrow> int \<Rightarrow> 'd grid" where
  "mean_centred ops edge height width =
     (let kernelMean = float_sum (map (float32_of ops) (concat edge)) /
                         float32_of_int ops (wrap64 (height * width))
      in map (map (\<lambda>e. float64_of ops (float32_of ops e - kernelMean))) edge)"

subsection \<open>A small example\<close>

text \<open>
  A template of one row \<open>[-1, 1]\<close> and a scene of three rows, in exact arithmetic. The
  window \<open>(1, 0)\<close> of the scene is flat.
\<close>

definition ex_template :: "(real, real) TemplateFromImage" where
  "ex_template = \<lparr> kernel = [[-1, 1]], kernelWidth = 2, kernelHeight = 1, sumKernel = 2,
                    originalSize = (2, 1) \<rparr>"

definition ex_scene :: "real grid" where
  "ex_scene = [[0, 3, 1, 4], [2, 2, 5, 1], [0, 0, 0, 0]]"

definition ex_match :: "int \<Rightarrow> int \<Rightarrow> real \<Rightarrow> real Match" where
  "ex_match x y c = \<lparr> X = x, Y = y, Width = 2, Height = 1, Score = c \<rparr>"

text \<open>
  An image of 3x3 pixels whose right column has the grey level 225, a stand-in for the
  resizer (it returns its argument when \<open>newWidth\<close> is 0, as the library does on
  \<open>Resize(0, 0, \<dots>)\<close>, or is the width already), the grey grid of the image, the template
  built from it, and a scene that holds the template's kernel at \<open>(0, 1)\<close>.
\<close>

definition ex_image :: "8 word Image" where
  "ex_image = \<lparr> MinX = 0, MinY = 0, MaxX = 3, MaxY = 3, At = (\<lambda>x y. if x = 2 then 225 else 0) \<rparr>"

definition ex_resize :: "'c Image \<Rightarrow> int \<Rightarrow> 'c Image" where
  "ex_resize img newWidth =
     (if newWidth = 0 \<or> newWidth = Dx img then img
      else \<lparr> MinX = 0, MinY = 0, MaxX = newWidth, MaxY = max 1 (Dy img * newWidth div Dx img),
             At = (\<lambda>x y. At img (MinX img + x * Dx img div newWidth)
                                 (MinY img + y * Dx img div newWidth)) \<rparr>)"

definition ex_gray_grid :: "real grid" where
  "ex_gray_grid = [[0, 0, 225], [0, 0, 225], [0, 0, 225]]"

definition ex_built :: "(real, real) TemplateFromImage" where
  "ex_built = \<lparr> kernel = [[-100, -100, -100], [-100, 800, -100], [-100, -100, -100]],
                 kernelWidth = 3, kernelHeight = 3, sumKernel = 720000, originalSize = (3, 3) \<rparr>"

definition ex_scene5 :: "real grid" where
  "ex_scene5 = [[-400, -100, -100, -100, 0], [-400, -100, 800, -100, 0],
                [-400, -100, -100, -100, 0], [0, 0, 0, 0, 0]]"

section \<open>Properties\<close>

subsection \<open>Loops\<close>

lemma wrap64_id: "int64 n \<Longrightarrow> wrap64 n = n"
  by (simp add: wrap64_def int64_def)

lemma for_loop_steps:
  assumes "0 < stride" "stride < 2 ^ 63" "n \<le> 2 ^ 62" "\<And>k st. body k st = Some (body' k st)"
  shows "0 \<le> i \<Longrightarrow> i = 0 \<or> stride \<le> i \<Longrightarrow>
    for_loop n stride body i st = Some (for_each (steps i n stride) body' st)"
proof (induction "nat (n - i)" arbitrary: i st rule: less_induct)
  case less
  show ?case
  proof (cases "i < n")
    case False
    then show ?thesis by (simp add: for_loop.simps steps.simps)
  next
    case True
    have "int64 (i + stride)"
      using less.prems True assms(1,2,3) by (auto simp: int64_def)
    then have w: "wrap64 (i + stride) = i + stride" by (rule wrap64_id)
    have IH: "for_loop n stride body (i + stride) st' =
        Some (for_each (steps (i + stride) n stride) body' st')" for st'
      by (rule less.hyps) (use less.prems True assms(1) in auto)
    show ?thesis
      by (subst for_loop.simps, subst steps.simps)
         (simp add: True assms(1,4) w IH split: sum.split)
  qed
qed

lemma set_steps: "k \<in> set (steps i n s) \<Longrightarrow> i \<le> k \<and> k < n"
  by (induction i n s rule: steps.induct) (subst (asm) steps.simps, auto split: if_splits)

lemma for_each_ok:
  "(\<And>k st. k \<in> set ks \<Longrightarrow> \<exists>st'. body k st = Inr st') \<Longrightarrow> \<exists>st'. for_each ks body st = Inr st'"
proof (induction ks arbitrary: st)
  case Nil
  show ?case by simp
next
  case (Cons k ks)
  obtain st1 where s1: "body k st = Inr st1" using Cons.prems[of k st] by auto
  show ?case using Cons.IH[of st1] Cons.prems by (simp add: s1)
qed

lemma for_loop_zero_diverges:
  assumes "\<And>st. \<exists>st'. body 0 st = Some (Inr st')" "0 < n"
  shows "for_loop n 0 body 0 st = None"
proof (cases "for_loop n 0 body 0 st")
  case None
  then show ?thesis .
next
  case (Some y)
  have "\<not> (0 = (0::int) \<and> (0::int) = 0 \<and> 0 < n \<and> (\<forall>st. \<exists>st'. body 0 st = Some (Inr st')))"
  proof (rule for_loop.raw_induct
      [where P = "\<lambda>n s b i st y. \<not> (s = 0 \<and> i = 0 \<and> 0 < n \<and> (\<forall>st. \<exists>st'. b 0 st = Some (Inr st')))",
        OF _ Some], goal_cases)
    case (1 f n s b i st y)
    show ?case
    proof
      assume a: "s = 0 \<and> i = 0 \<and> 0 < n \<and> (\<forall>st. \<exists>st'. b 0 st = Some (Inr st'))"
      then obtain st' where s: "b 0 st = Some (Inr st')" by blast
      from 1(2) a s have "f n 0 b 0 st' = Some y" by (simp add: wrap64_def)
      from 1(1)[OF this] a show False by simp
    qed
  qed
  with assms show ?thesis by simp
qed

lemma for_loop_inv:
  assumes run: "for_loop n s b i st = Some (Inr st')"
    and init: "I st"
    and step: "\<And>k st st'. k < n \<Longrightarrow> I st \<Longrightarrow> b k st = Some (Inr st') \<Longrightarrow> I st'"
  shows "I st'"
proof -
  have "(\<forall>k st st'. k < n \<longrightarrow> I st \<longrightarrow> b k st = Some (Inr st') \<longrightarrow> I st') \<longrightarrow>
        I st \<longrightarrow> (\<forall>st''. (Inr st' :: error + _) = Inr st'' \<longrightarrow> I st'')"
  proof (rule for_loop.raw_induct
      [where P = "\<lambda>n s b i st y. (\<forall>k st st'. k < n \<longrightarrow> I st \<longrightarrow> b k st = Some (Inr st') \<longrightarrow> I st') \<longrightarrow>
        I st \<longrightarrow> (\<forall>st''. (y :: error + _) = Inr st'' \<longrightarrow> I st'')", OF _ run], goal_cases)
    case (1 f n s b i st y)
    show ?case
    proof (intro impI allI)
      fix st''
      assume st: "\<forall>k st st'. k < n \<longrightarrow> I st \<longrightarrow> b k st = Some (Inr st') \<longrightarrow> I st'"
        and i: "I st" and y: "y = Inr st''"
      show "I st''"
      proof (cases "i < n")
        case False
        with 1(2) y i show ?thesis by simp
      next
        case True
        from 1(2) True y obtain st1 where b: "b i st = Some (Inr st1)"
          and f: "f n s b (wrap64 (i + s)) st1 = Some (Inr st'')"
          by (auto split: option.splits sum.splits)
        from st True i b have "I st1" by blast
        with 1(1)[OF f] st show ?thesis by blast
      qed
    qed
  qed
  with init step show ?thesis by blast
qed

lemma for_loop_rel:
  assumes run: "for_loop n s b1 i st1 = Some r1"
    and init: "R st1 st2"
    and step: "\<And>k st1 st2 r. R st1 st2 \<Longrightarrow> b1 k st1 = Some r \<Longrightarrow>
                 \<exists>r'. b2 k st2 = Some r' \<and> rel_sum (=) R r r'"
  shows "\<exists>r2. for_loop n s b2 i st2 = Some r2 \<and> rel_sum (=) R r1 r2"
proof -
  let ?S = "\<lambda>b. \<forall>k st1 st2 r. R st1 st2 \<longrightarrow> b k st1 = Some r \<longrightarrow>
                 (\<exists>r'. b2 k st2 = Some r' \<and> rel_sum (=) R r r')"
  have "?S b1 \<longrightarrow> (\<forall>st2. R st1 st2 \<longrightarrow> (\<exists>r2. for_loop n s b2 i st2 = Some r2 \<and> rel_sum (=) R r1 r2))"
  proof (rule for_loop.raw_induct
      [where P = "\<lambda>n s b i st y. ?S b \<longrightarrow>
         (\<forall>st2. R st st2 \<longrightarrow> (\<exists>r2. for_loop n s b2 i st2 = Some r2 \<and> rel_sum (=) R y r2))", OF _ run],
      goal_cases)
    case (1 f n s b i st y)
    show ?case
    proof (intro impI allI)
      fix st2
      assume S: "?S b" and R: "R st st2"
      show "\<exists>r2. for_loop n s b2 i st2 = Some r2 \<and> rel_sum (=) R y r2"
      proof (cases "i < n")
        case False
        with 1(2) R show ?thesis by (subst for_loop.simps) auto
      next
        case True
        from 1(2) True obtain r where b: "b i st = Some r"
          by (auto split: option.splits)
        from S R b obtain r' where b2: "b2 i st2 = Some r'" and rr: "rel_sum (=) R r r'" by blast
        show ?thesis
        proof (cases r)
          case (Inl e)
          with rr have "r' = Inl e" by (cases r') auto
          with 1(2) True b Inl b2 show ?thesis by (subst for_loop.simps) auto
        next
          case (Inr sa)
          with rr obtain sb where r': "r' = Inr sb" and Rab: "R sa sb" by (cases r') auto
          from 1(2) True b Inr have "f n s b (wrap64 (i + s)) sa = Some y" by simp
          from 1(1)[OF this] S Rab obtain r2 where
            "for_loop n s b2 (wrap64 (i + s)) sb = Some r2" "rel_sum (=) R y r2" by blast
          with True b2 r' show ?thesis by (subst for_loop.simps) auto
        qed
      qed
    qed
  qed
  with init step show ?thesis by blast
qed

subsection \<open>The window body\<close>

lemma index2_Inr:
  "0 \<le> y \<Longrightarrow> y < int (length g) \<Longrightarrow> 0 \<le> x \<Longrightarrow> x < int (length (g ! nat y)) \<Longrightarrow>
     index2 g y x = Inr (g ! nat y ! nat x)"
  by (simp add: index2_def index_def)

lemma scene_index2:
  assumes "rectangular scene" "0 \<le> y" "y < int (length scene)" "0 \<le> x" "x < int (length (scene ! 0))"
  shows "index2 scene y x = Inr (scene ! nat y ! nat x)"
proof -
  have "scene ! nat y \<in> set scene" using assms(2,3) by simp
  then have "length (scene ! nat y) = length (scene ! 0)" using assms(1) by (simp add: rectangular_def)
  then show ?thesis using assms by (simp add: index2_Inr)
qed

lemma kernel_index2:
  assumes "template_ok t" "0 \<le> y" "y < kernelHeight t" "0 \<le> x" "x < kernelWidth t"
  shows "index2 (kernel t) y x = Inr (kernel t ! nat y ! nat x)"
proof -
  have "nat y < length (kernel t)" using assms(1,2,3) by (auto simp: template_ok_def has_shape_def)
  then have "kernel t ! nat y \<in> set (kernel t)" by simp
  then have "int (length (kernel t ! nat y)) = kernelWidth t" using assms(1) by (simp add: template_ok_def has_shape_def)
  then show ?thesis using assms by (simp add: index2_Inr template_ok_def has_shape_def)
qed

lemma crop_sum_ok:
  assumes "rectangular scene" "0 \<le> i" "i + kh \<le> int (length scene)"
    "0 \<le> j" "j + kw \<le> int (length (scene ! 0))"
  shows "\<exists>s. crop_sum scene kh kw i j = Inr s"
  unfolding crop_sum_def
proof (rule for_each_ok, rule for_each_ok)
  fix y x and st :: 'a
  assume "y \<in> set [0..kh - 1]" "x \<in> set [0..kw - 1]"
  then have "index2 scene (i + y) (j + x) = Inr (scene ! nat (i + y) ! nat (j + x))"
    using assms by (intro scene_index2) auto
  then show "\<exists>st'. (case index2 scene (i + y) (j + x) of Inl e \<Rightarrow> Inl e | Inr v \<Rightarrow> Inr (st + v)) = Inr st'"
    by simp
qed

lemma crop_products_ok:
  assumes "rectangular scene" "template_ok t" "0 \<le> i" "i + kernelHeight t \<le> int (length scene)"
    "0 \<le> j" "j + kernelWidth t \<le> int (length (scene ! 0))"
  shows "\<exists>s. crop_products scene (kernel t) (kernelHeight t) (kernelWidth t) m i j = Inr s"
  unfolding crop_products_def
proof (rule for_each_ok, rule for_each_ok)
  fix y x and st :: "'a \<times> 'a"
  assume yx: "y \<in> set [0..kernelHeight t - 1]" "x \<in> set [0..kernelWidth t - 1]"
  then have 1: "index2 scene (i + y) (j + x) = Inr (scene ! nat (i + y) ! nat (j + x))"
    using assms by (intro scene_index2) auto
  have 2: "index2 (kernel t) y x = Inr (kernel t ! nat y ! nat x)"
    using assms(2) yx by (intro kernel_index2) auto
  show "\<exists>st'. (case st of (sumProduct, sumCropSquared) \<Rightarrow>
      (case index2 scene (i + y) (j + x) of
         Inl e \<Rightarrow> Inl e
       | Inr v \<Rightarrow>
           let normalizedCrop = v - m in
           (case index2 (kernel t) y x of
              Inl e \<Rightarrow> Inl e
            | Inr k \<Rightarrow> Inr (sumProduct + normalizedCrop * k,
                           sumCropSquared + normalizedCrop * normalizedCrop)))) = Inr st'"
    by (cases st) (simp add: 1 2 Let_def)
qed

lemma window_sums_ok:
  assumes "rectangular scene" "template_ok t" "0 \<le> i" "i + kernelHeight t \<le> int (length scene)"
    "0 \<le> j" "j + kernelWidth t \<le> int (length (scene ! 0))"
  shows "\<exists>s. window_sums ops t scene i j = Inr s"
proof -
  obtain c where c: "crop_sum scene (kernelHeight t) (kernelWidth t) i j = Inr c"
    using crop_sum_ok[OF assms(1,3,4,5,6)] by blast
  show ?thesis
    using crop_products_ok[OF assms] by (simp add: window_sums_def c Let_def)
qed

lemma match_window_ok:
  assumes "rectangular scene" "template_ok t" "0 \<le> i" "i + kernelHeight t \<le> int (length scene)"
    "0 \<le> j" "j + kernelWidth t \<le> int (length (scene ! 0))"
  shows "\<exists>ms'. match_window ops t scene threshold scale i j ms = Inr ms'"
proof -
  obtain s where "window_sums ops t scene i j = Inr s"
    using window_sums_ok[OF assms] by blast
  then show ?thesis by (cases s) (simp add: match_window_def Let_def)
qed

lemma scan_windows_steps:
  assumes "0 < stride" "stride < 2 ^ 63"
    and "0 \<le> kernelHeight t" "kernelHeight t < 2 ^ 63" "0 \<le> kernelWidth t" "kernelWidth t < 2 ^ 63"
    and "int (length scene) < 2 ^ 62" "int (length (scene ! 0)) < 2 ^ 62"
  shows "scan_windows t scene stride body st =
    Some (for_each (steps 0 (int (length scene) - kernelHeight t) stride) (\<lambda>i.
            for_each (steps 0 (int (length (scene ! 0)) - kernelWidth t) stride) (body i)) st)"
proof -
  let ?n = "int (length scene) - kernelHeight t"
  let ?m = "int (length (scene ! 0)) - kernelWidth t"
  have n: "wrap64 ?n = ?n" "?n \<le> 2 ^ 62"
    using assms by (auto intro!: wrap64_id simp: int64_def)
  have m: "wrap64 ?m = ?m" "?m \<le> 2 ^ 62"
    using assms by (auto intro!: wrap64_id simp: int64_def)
  have inner: "for_loop ?m stride (\<lambda>j st'. Some (body i j st')) 0 st' =
      Some (for_each (steps 0 ?m stride) (body i) st')" for i st'
    by (rule for_loop_steps[OF assms(1,2) m(2)]) simp_all
  have "for_loop ?n stride (\<lambda>i. for_loop ?m stride (\<lambda>j st'. Some (body i j st')) 0) 0 st =
      Some (for_each (steps 0 ?n stride) (\<lambda>i. for_each (steps 0 ?m stride) (body i)) st)"
    by (rule for_loop_steps[OF assms(1,2) n(2)]) (simp_all add: inner)
  then show ?thesis by (simp add: scan_windows_def Let_def n m)
qed

lemma for_each_record:
  "for_each ks (\<lambda>k ps. Inr (ps @ [f k])) ps = Inr (ps @ map f ks)"
  by (induction ks arbitrary: ps) auto

lemma for_each_record2:
  "for_each is (\<lambda>i. for_each js (\<lambda>j ps. Inr (ps @ [(i, j)]))) ps =
     Inr (ps @ concat (map (\<lambda>i. map (Pair i) js) is))"
  by (induction "is" arbitrary: ps) (auto simp: for_each_record)

lemma window_positions_steps:
  assumes "0 < stride" "stride < 2 ^ 63"
    and "0 \<le> kernelHeight t" "kernelHeight t < 2 ^ 63" "0 \<le> kernelWidth t" "kernelWidth t < 2 ^ 63"
    and "scene \<noteq> []" "int (length scene) < 2 ^ 62" "int (length (scene ! 0)) < 2 ^ 62"
  shows "window_positions t scene stride =
    Some (Inr (concat (map (\<lambda>i. map (Pair i) (steps 0 (int (length (scene ! 0)) - kernelWidth t) stride))
                 (steps 0 (int (length scene) - kernelHeight t) stride))))"
  using assms(7)
  by (simp add: window_positions_def scan_windows_steps[OF assms(1-6,8,9)] for_each_record2)

lemma steps_mult:
  assumes "0 < s"
  shows "set (steps (a * s) n s) = {k. a * s \<le> k \<and> k < n \<and> s dvd k}"
proof (induction "nat (n - a * s)" arbitrary: a rule: less_induct)
  case less
  show ?case
  proof (cases "a * s < n")
    case False
    then show ?thesis by (subst steps.simps) auto
  next
    case True
    have IH: "set (steps ((a + 1) * s) n s) = {k. (a + 1) * s \<le> k \<and> k < n \<and> s dvd k}"
      by (rule less.hyps) (use True assms in \<open>auto simp: algebra_simps\<close>)
    have "{k. a * s \<le> k \<and> k < n \<and> s dvd k} = insert (a * s) {k. (a + 1) * s \<le> k \<and> k < n \<and> s dvd k}"
    proof (intro set_eqI iffI)
      fix k assume "k \<in> {k. a * s \<le> k \<and> k < n \<and> s dvd k}"
      then obtain c where k: "a * s \<le> k" "k < n" "k = s * c" by (auto simp: dvd_def)
      then have "a \<le> c" using assms by (simp add: mult.commute)
      then have "c = a \<or> a + 1 \<le> c" by auto
      then show "k \<in> insert (a * s) {k. (a + 1) * s \<le> k \<and> k < n \<and> s dvd k}"
      proof
        assume "c = a" then show ?thesis using k by (simp add: mult.commute)
      next
        assume "a + 1 \<le> c"
        then have "(a + 1) * s \<le> c * s" using assms by (intro mult_right_mono) auto
        then show ?thesis using k by (simp add: mult.commute)
      qed
    next
      fix k assume "k \<in> insert (a * s) {k. (a + 1) * s \<le> k \<and> k < n \<and> s dvd k}"
      then show "k \<in> {k. a * s \<le> k \<and> k < n \<and> s dvd k}"
        using True assms by (auto simp: algebra_simps)
    qed
    with IH True assms show ?thesis
      by (subst steps.simps) (simp add: algebra_simps)
  qed
qed

lemma set_steps_0: "0 < s \<Longrightarrow> set (steps 0 n s) = {k. 0 \<le> k \<and> k < n \<and> s dvd k}"
  using steps_mult[of s 0 n] by simp

lemma for_each_fixed:
  "(\<And>k. k \<in> set ks \<Longrightarrow> body k st = Inr st) \<Longrightarrow> for_each ks body st = Inr st"
  by (induction ks) auto

lemma for_each_add:
  fixes d :: real
  assumes "\<And>k acc. k \<in> set ks \<Longrightarrow> body k acc = Inr (acc + d)"
  shows "for_each ks body acc = Inr (acc + real (length ks) * d)"
  using assms by (induction ks arbitrary: acc) (auto simp: algebra_simps)

text \<open>
  In exact arithmetic a flat window (every cell equal to \<open>c\<close>) has the sums \<open>(0, 0)\<close>, and
  the denominator of a zero sum of squares is zero.
\<close>

lemma flat_window_exact:
  assumes flat: "\<And>y x. 0 \<le> y \<Longrightarrow> y < kernelHeight t \<Longrightarrow> 0 \<le> x \<Longrightarrow> x < kernelWidth t \<Longrightarrow>
      index2 scene (i + y) (j + x) = Inr c"
    and t: "template_ok t" "0 < kernelHeight t" "0 < kernelWidth t"
      "kernelHeight t * kernelWidth t < 2 ^ 63"
  shows "window_sums exact_ops t scene i j = Inr (0, 0)"
    and "denominator_of exact_ops t 0 = 0"
proof -
  let ?kh = "kernelHeight t" and ?kw = "kernelWidth t"
  have row: "for_each [0..?kw - 1] (\<lambda>x cropSum. case index2 scene (i + y) (j + x) of
        Inl e \<Rightarrow> Inl e | Inr v \<Rightarrow> Inr (cropSum + v)) acc = Inr (acc + real (nat ?kw) * c)"
    if "y \<in> set [0..?kh - 1]" for y acc
    using for_each_add[of "[0..?kw - 1]" _ c acc] that flat by simp
  have "crop_sum scene ?kh ?kw i j = Inr (0 + real (length [0..?kh - 1]) * (real (nat ?kw) * c))"
    unfolding crop_sum_def by (rule for_each_add) (rule row)
  then have cs: "crop_sum scene ?kh ?kw i j = Inr (real_of_int (?kh * ?kw) * c)"
    using t(2,3) by simp
  have w: "wrap64 (?kh * ?kw) = ?kh * ?kw"
    using t by (intro wrap64_id) (auto simp: int64_def intro: order_trans[of _ 0])
  have mean: "real_of_int (?kh * ?kw) * c / float64_of_int exact_ops (wrap64 (?kh * ?kw)) = c"
    using t(2,3) by (simp add: w exact_ops_def)
  have prow: "for_each [0..?kw - 1] (\<lambda>x (sumProduct, sumCropSquared).
         case index2 scene (i + y) (j + x) of
           Inl e \<Rightarrow> Inl e
         | Inr v \<Rightarrow>
             let normalizedCrop = v - c in
             (case index2 (kernel t) y x of
                Inl e \<Rightarrow> Inl e
              | Inr k \<Rightarrow> Inr (sumProduct + normalizedCrop * k,
                             sumCropSquared + normalizedCrop * normalizedCrop))) (0, 0) = Inr (0, 0)"
    if "y \<in> set [0..?kh - 1]" for y
  proof (rule for_each_fixed)
    fix x assume "x \<in> set [0..?kw - 1]"
    then show "(case (0::real, 0::real) of (sumProduct, sumCropSquared) \<Rightarrow>
         (case index2 scene (i + y) (j + x) of
            Inl e \<Rightarrow> Inl e
          | Inr v \<Rightarrow>
              let normalizedCrop = v - c in
              (case index2 (kernel t) y x of
                 Inl e \<Rightarrow> Inl e
               | Inr k \<Rightarrow> Inr (sumProduct + normalizedCrop * k,
                              sumCropSquared + normalizedCrop * normalizedCrop)))) = Inr (0, 0)"
      using that flat[of y x] kernel_index2[OF t(1), of y x] by simp
  qed
  have cp: "crop_products scene (kernel t) ?kh ?kw c i j = Inr (0, 0)"
    unfolding crop_products_def by (rule for_each_fixed) (rule prow)
  show "window_sums exact_ops t scene i j = Inr (0, 0)"
    unfolding window_sums_def cs Let_def sum.case mean by (rule cp)
  show "denominator_of exact_ops t 0 = 0"
    by (simp add: denominator_of_def exact_ops_def)
qed

lemma match_window_Inr:
  assumes "match_window ops t scene threshold scale i j ms = Inr ms'"
  shows "\<exists>sp sq. window_sums ops t scene i j = Inr (sp, sq) \<and>
     (if 0 < denominator_of ops t sq \<and> threshold < float32_of ops sp / denominator_of ops t sq
      then ms' = ms @ [\<lparr> X = rescale ops scale j, Y = rescale ops scale i,
                         Width = fst (originalSize t), Height = snd (originalSize t),
                         Score = float32_of ops sp / denominator_of ops t sq \<rparr>]
      else ms' = ms)"
  using assms by (auto simp: match_window_def Let_def split: sum.splits prod.splits if_splits)

lemma FindMatch_emitted:
  assumes run: "FindMatch ops t scene stride threshold scale = Some (Inr ms)"
    and m: "m \<in> set ms"
  shows "emitted ops t scene threshold scale m"
proof (cases "length scene = 0")
  case True
  with run m show ?thesis by (simp add: FindMatch_def)
next
  case False
  let ?I = "\<lambda>ms. \<forall>m\<in>set ms. emitted ops t scene threshold scale m"
  let ?n = "wrap64 (int (length scene) - kernelHeight t)"
  let ?m = "wrap64 (int (length (scene ! 0)) - kernelWidth t)"
  from run False have loop: "for_loop ?n stride (\<lambda>i.
      for_loop ?m stride (\<lambda>j st'. Some (match_window ops t scene threshold scale i j st')) 0) 0 [] = Some (Inr ms)"
    by (simp add: FindMatch_def scan_windows_def Let_def)
  have "?I ms"
  proof (rule for_loop_inv[OF loop, where I = ?I], goal_cases)
    case 1
    show ?case by simp
  next
    case (2 i st st')
    show ?case
    proof (rule for_loop_inv[OF 2(3), where I = ?I], goal_cases)
      case 1
      show ?case by (rule 2(2))
    next
      case (2 j st1 st2)
      from 2(3) have mw: "match_window ops t scene threshold scale i j st1 = Inr st2" by simp
      from match_window_Inr[OF mw] obtain sp sq where
        ws: "window_sums ops t scene i j = Inr (sp, sq)" and
        c: "if 0 < denominator_of ops t sq \<and> threshold < float32_of ops sp / denominator_of ops t sq
            then st2 = st1 @ [\<lparr> X = rescale ops scale j, Y = rescale ops scale i,
                         Width = fst (originalSize t), Height = snd (originalSize t),
                         Score = float32_of ops sp / denominator_of ops t sq \<rparr>]
            else st2 = st1" by blast
      show ?case
      proof (cases "0 < denominator_of ops t sq \<and> threshold < float32_of ops sp / denominator_of ops t sq")
        case False
        with c 2(2) show ?thesis by simp
      next
        case True
        with c have st2: "st2 = st1 @ [\<lparr> X = rescale ops scale j, Y = rescale ops scale i,
                         Width = fst (originalSize t), Height = snd (originalSize t),
                         Score = float32_of ops sp / denominator_of ops t sq \<rparr>]" by simp
        have "emitted ops t scene threshold scale \<lparr> X = rescale ops scale j, Y = rescale ops scale i,
                         Width = fst (originalSize t), Height = snd (originalSize t),
                         Score = float32_of ops sp / denominator_of ops t sq \<rparr>"
          unfolding emitted_def using \<open>i < ?n\<close> \<open>j < ?m\<close> ws True by blast
        with 2(2) st2 show ?thesis by simp
      qed
    qed
  qed
  with m show ?thesis by blast
qed

lemma match_window_threshold:
  fixes theta1 theta2 :: "'s::{times,inverse,zero,ord}"
  assumes trans: "\<And>c. theta2 < c \<Longrightarrow> theta1 < c"
    and run: "match_window ops t scene theta1 scale i j ms = r"
  shows "rel_sum (=) (\<lambda>ms1 ms2. ms2 = filter (\<lambda>m. theta2 < Score m) ms1) r
           (match_window ops t scene theta2 scale i j (filter (\<lambda>m. theta2 < Score m) ms))"
  using run trans
  by (auto simp: match_window_def Let_def split: sum.splits prod.splits)

lemma FindMatch_threshold_filter:
  fixes theta1 theta2 :: "'s::{times,inverse,zero,ord}"
  assumes trans: "\<And>c. theta2 < c \<Longrightarrow> theta1 < c"
    and run: "FindMatch ops t scene stride theta1 scale = Some (Inr ms)"
  shows "FindMatch ops t scene stride theta2 scale = Some (Inr (filter (\<lambda>m. theta2 < Score m) ms))"
proof (cases "length scene = 0")
  case True
  with run show ?thesis by (simp add: FindMatch_def)
next
  case False
  let ?R = "\<lambda>ms1 ms2. ms2 = filter (\<lambda>m. theta2 < Score m) ms1"
  let ?n = "wrap64 (int (length scene) - kernelHeight t)"
  let ?m = "wrap64 (int (length (scene ! 0)) - kernelWidth t)"
  let ?b = "\<lambda>theta i. for_loop ?m stride (\<lambda>j st'. Some (match_window ops t scene theta scale i j st')) 0"
  from run False have loop: "for_loop ?n stride (?b theta1) 0 [] = Some (Inr ms)"
    by (simp add: FindMatch_def scan_windows_def Let_def)
  have "\<exists>r2. for_loop ?n stride (?b theta2) 0 [] = Some r2 \<and> rel_sum (=) ?R (Inr ms) r2"
  proof (rule for_loop_rel[OF loop, where R = ?R], goal_cases)
    case 1
    show ?case by simp
  next
    case (2 i st1 st2 r)
    show ?case
    proof (rule for_loop_rel[OF 2(2), where R = ?R], goal_cases)
      case 1
      show ?case by (rule 2(1))
    next
      case (2 j sa sb r')
      then show ?case
        using match_window_threshold[OF trans, of _ ops t scene scale i j sa r'] by auto
    qed
  qed
  then have "for_loop ?n stride (?b theta2) 0 [] = Some (Inr (filter (\<lambda>m. theta2 < Score m) ms))"
    by (auto elim: rel_sum.cases)
  with False show ?thesis by (simp add: FindMatch_def scan_windows_def Let_def)
qed

subsection \<open>Grids and the loops over them\<close>

lemma index2_shape:
  assumes "has_shape h w g" "0 \<le> y" "y < h" "0 \<le> x" "x < w"
  shows "index2 g y x = Inr (g ! nat y ! nat x)"
proof -
  have "nat y < length g" using assms by (auto simp: has_shape_def)
  then have "g ! nat y \<in> set g" by simp
  then have "int (length (g ! nat y)) = w" using assms(1) by (simp add: has_shape_def)
  then show ?thesis using assms by (simp add: index2_Inr has_shape_def)
qed

lemma store2_shape:
  assumes "has_shape h w g" "0 \<le> y" "y < h" "0 \<le> x" "x < w"
  shows "store2 g y x v = Inr (g[nat y := (g ! nat y)[nat x := v]])"
proof -
  have "nat y < length g" using assms by (auto simp: has_shape_def)
  then have "g ! nat y \<in> set g" by simp
  then have "int (length (g ! nat y)) = w" using assms(1) by (simp add: has_shape_def)
  then show ?thesis using assms by (simp add: store2_def index_def has_shape_def)
qed

lemma has_shape_update:
  assumes "has_shape h w g" "int (length row) = w"
  shows "has_shape h w (g[n := row])"
  using assms set_update_subset_insert[of g n row] by (auto simp: has_shape_def)

lemma has_shape_update_cell:
  assumes "has_shape h w g" "n < length g"
  shows "has_shape h w (g[n := (g ! n)[m := v]])"
  using assms by (intro has_shape_update) (auto simp: has_shape_def)

lemma for_each_foldl:
  assumes "I st" "\<And>k st. k \<in> set ks \<Longrightarrow> I st \<Longrightarrow> body k st = Inr (f k st) \<and> I (f k st)"
  shows "for_each ks body st = Inr (foldl (\<lambda>st k. f k st) st ks) \<and> I (foldl (\<lambda>st k. f k st) st ks)"
  using assms
proof (induction ks arbitrary: st)
  case Nil
  then show ?case by simp
next
  case (Cons k ks)
  have 1: "body k st = Inr (f k st)" "I (f k st)" using Cons.prems(2)[of k st] Cons.prems(1) by simp_all
  have "for_each ks body (f k st) = Inr (foldl (\<lambda>st k. f k st) (f k st) ks) \<and>
        I (foldl (\<lambda>st k. f k st) (f k st) ks)"
    by (rule Cons.IH[OF 1(2)]) (use Cons.prems(2) in auto)
  then show ?case by (simp add: 1)
qed

lemma foldl_update_nth:
  assumes "distinct ks" "\<forall>k\<in>set ks. 0 \<le> k" "n < length xs"
  shows "foldl (\<lambda>xs k. xs[nat k := F k (xs ! nat k)]) xs ks ! n =
           (if int n \<in> set ks then F (int n) (xs ! n) else xs ! n)"
  using assms
proof (induction ks arbitrary: xs)
  case Nil
  then show ?case by simp
next
  case (Cons k ks)
  have IH: "foldl (\<lambda>xs k. xs[nat k := F k (xs ! nat k)]) (xs[nat k := F k (xs ! nat k)]) ks ! n =
      (if int n \<in> set ks then F (int n) (xs[nat k := F k (xs ! nat k)] ! n)
       else xs[nat k := F k (xs ! nat k)] ! n)"
    by (rule Cons.IH) (use Cons.prems in auto)
  show ?case
  proof (cases "int n = k")
    case True
    then have "int n \<notin> set ks" using Cons.prems(1) by auto
    with True IH Cons.prems(3) show ?thesis by auto
  next
    case False
    then have "nat k \<noteq> n" using Cons.prems(2) by auto
    with False IH show ?thesis by auto
  qed
qed

lemma foldl_update_length:
  "length (foldl (\<lambda>xs k. xs[nat k := F k (xs ! nat k)]) xs ks) = length xs"
  by (induction ks arbitrary: xs) auto

lemma foldl_row_update:
  assumes "y < length g"
  shows "foldl (\<lambda>g x. g[y := (g ! y)[nat x := V x (g ! y ! nat x)]]) g xs =
         g[y := foldl (\<lambda>r x. r[nat x := V x (r ! nat x)]) (g ! y) xs]"
  using assms
proof (induction xs arbitrary: g)
  case Nil
  then show ?case by simp
next
  case (Cons x xs)
  then show ?case by simp
qed

lemma grid_loop:
  assumes shape: "has_shape h w g"
    and ys: "distinct ys" "\<forall>y\<in>set ys. 0 \<le> y \<and> y < h"
    and xs: "distinct xs" "\<forall>x\<in>set xs. 0 \<le> x \<and> x < w"
    and body: "\<And>y x g'. y \<in> set ys \<Longrightarrow> x \<in> set xs \<Longrightarrow> has_shape h w g' \<Longrightarrow>
       body y x g' = Inr (g'[nat y := (g' ! nat y)[nat x := V y x (g' ! nat y ! nat x)]])"
  shows "\<exists>g'. for_each ys (\<lambda>y. for_each xs (body y)) g = Inr g' \<and> has_shape h w g' \<and>
     (\<forall>ny nx. ny < nat h \<longrightarrow> nx < nat w \<longrightarrow>
        g' ! ny ! nx = (if int ny \<in> set ys \<and> int nx \<in> set xs
                        then V (int ny) (int nx) (g ! ny ! nx) else g ! ny ! nx))"
proof -
  define R where "R y row = foldl (\<lambda>r x. r[nat x := V y x (r ! nat x)]) row xs" for y row
  have inner: "for_each xs (body y) g' = Inr (g'[nat y := R y (g' ! nat y)]) \<and>
      has_shape h w (g'[nat y := R y (g' ! nat y)])"
    if y: "y \<in> set ys" and g': "has_shape h w g'" for y g'
  proof -
    have ylen: "nat y < length g'" using y ys(2) g' by (auto simp: has_shape_def)
    have "for_each xs (body y) g' =
        Inr (foldl (\<lambda>g x. g[nat y := (g ! nat y)[nat x := V y x (g ! nat y ! nat x)]]) g' xs) \<and>
        has_shape h w (foldl (\<lambda>g x. g[nat y := (g ! nat y)[nat x := V y x (g ! nat y ! nat x)]]) g' xs)"
    proof (rule for_each_foldl[where I = "has_shape h w"], goal_cases)
      case 1
      show ?case by (rule g')
    next
      case (2 x st)
      have "nat y < length st" using y ys(2) 2(2) by (auto simp: has_shape_def)
      then show ?case using body[OF y 2(1) 2(2)] has_shape_update_cell[OF 2(2)] by simp
    qed
    then show ?thesis by (simp add: foldl_row_update[OF ylen] R_def)
  qed
  let ?res = "foldl (\<lambda>g y. g[nat y := R y (g ! nat y)]) g ys"
  have outer: "for_each ys (\<lambda>y. for_each xs (body y)) g = Inr ?res \<and> has_shape h w ?res"
    by (rule for_each_foldl[where I = "has_shape h w"]) (use shape inner in auto)
  have "?res ! ny ! nx = (if int ny \<in> set ys \<and> int nx \<in> set xs
                        then V (int ny) (int nx) (g ! ny ! nx) else g ! ny ! nx)"
    if ny: "ny < nat h" and nx: "nx < nat w" for ny nx
  proof -
    have len: "ny < length g" using ny shape by (auto simp: has_shape_def)
    then have "g ! ny \<in> set g" by simp
    then have rlen: "nx < length (g ! ny)" using nx shape by (auto simp: has_shape_def)
    have 1: "?res ! ny = (if int ny \<in> set ys then R (int ny) (g ! ny) else g ! ny)"
      by (rule foldl_update_nth) (use ys len in auto)
    have 2: "R (int ny) (g ! ny) ! nx =
        (if int nx \<in> set xs then V (int ny) (int nx) (g ! ny ! nx) else g ! ny ! nx)"
      unfolding R_def by (rule foldl_update_nth) (use xs rlen in auto)
    show ?thesis by (simp add: 1 2)
  qed
  with outer show ?thesis by blast
qed

lemma grid_read_loop:
  assumes shape: "has_shape h w g"
    and body: "\<And>y x acc. 0 \<le> y \<Longrightarrow> y < h \<Longrightarrow> 0 \<le> x \<Longrightarrow> x < w \<Longrightarrow>
       body y x acc = Inr (G acc (g ! nat y ! nat x))"
  shows "for_each [0..h - 1] (\<lambda>y. for_each [0..w - 1] (body y)) acc = Inr (foldl G acc (concat g))"
proof -
  have row: "for_each xs (body y) a = Inr (foldl G a (map (\<lambda>x. g ! nat y ! nat x) xs))"
    if "0 \<le> y" "y < h" "\<forall>x\<in>set xs. 0 \<le> x \<and> x < w" for xs y a
    using that(3)
  proof (induction xs arbitrary: a)
    case Nil
    show ?case by simp
  next
    case (Cons x xs)
    then show ?case using body[OF that(1,2), of x a] by simp
  qed
  have nth_upto: "map (\<lambda>x. xs ! nat x) [0..int (length xs) - 1] = xs" for xs :: "'c list"
    by (rule nth_equalityI) (auto simp: nth_append)
  have rowfull: "for_each [0..w - 1] (body y) a = Inr (foldl G a (g ! nat y))"
    if "0 \<le> y" "y < h" for y a
  proof -
    have "nat y < length g" using that shape by (auto simp: has_shape_def)
    then have "g ! nat y \<in> set g" by simp
    then have "int (length (g ! nat y)) = w" using shape by (auto simp: has_shape_def)
    then have "map (\<lambda>x. g ! nat y ! nat x) [0..w - 1] = g ! nat y"
      using nth_upto[of "g ! nat y"] by simp
    with row[OF that, of "[0..w - 1]" a] show ?thesis by simp
  qed
  have rows: "for_each ys (\<lambda>y. for_each [0..w - 1] (body y)) a =
      Inr (foldl G a (concat (map (\<lambda>y. g ! nat y) ys)))"
    if "\<forall>y\<in>set ys. 0 \<le> y \<and> y < h" for ys a
    using that
  proof (induction ys arbitrary: a)
    case Nil
    show ?case by simp
  next
    case (Cons y ys)
    then show ?case using rowfull[of y a] by simp
  qed
  have "int (length g) = h" using shape by (simp add: has_shape_def)
  then have "map (\<lambda>y. g ! nat y) [0..h - 1] = g" using nth_upto[of g] by simp
  with rows[of "[0..h - 1]" acc] show ?thesis by simp
qed

subsection \<open>sobelEdge\<close>

lemma make_grid_shape:
  assumes "0 \<le> h" "0 \<le> w"
  shows "make_grid h w z = Inr (replicate (nat h) (replicate (nat w) z))"
proof -
  let ?g0 = "replicate (nat h) ([] :: 'a list)"
  let ?row = "replicate (nat w) z"
  let ?res = "foldl (\<lambda>g y. g[nat y := ?row]) ?g0 [0..h - 1]"
  note len = foldl_update_length[where F = "\<lambda>k r. ?row", of ?g0 "[0..h - 1]"]
  have "for_each [0..h - 1] (\<lambda>y g. case make_slice w z of Inl e \<Rightarrow> Inl e | Inr row \<Rightarrow> store g y row) ?g0
      = Inr ?res \<and> length ?res = nat h"
    by (rule for_each_foldl[where I = "\<lambda>g. length g = nat h"])
       (use assms in \<open>auto simp: make_slice_def store_def\<close>)
  moreover have "?res = replicate (nat h) ?row"
  proof (rule nth_equalityI)
    show "length ?res = length (replicate (nat h) ?row)" using len by simp
  next
    fix n assume "n < length ?res"
    then have n: "n < nat h" using len by simp
    have "?res ! n = (if int n \<in> set [0..h - 1] then ?row else ?g0 ! n)"
      using foldl_update_nth[where F = "\<lambda>k r. ?row", of "[0..h - 1]" n ?g0] n by auto
    with n show "?res ! n = replicate (nat h) ?row ! n" by auto
  qed
  ultimately show ?thesis using assms by (simp add: make_grid_def make_slice_def)
qed

lemma has_shape_replicate:
  "0 \<le> h \<Longrightarrow> 0 \<le> w \<Longrightarrow> has_shape h w (replicate (nat h) (replicate (nat w) z))"
  by (simp add: has_shape_def)

lemma wrap64_add_left: "wrap64 (wrap64 a + b) = wrap64 (a + b)"
  by (simp add: wrap64_def algebra_simps mod_simps)

lemma wrap64_add_right: "wrap64 (a + wrap64 b) = wrap64 (a + b)"
  by (simp add: wrap64_def algebra_simps mod_simps)

lemma upto_m1_1: "[-1..(1::int)] = [-1, 0, 1]"
  by (simp add: upto_rec1)

lemma wrap64_0: "wrap64 0 = 0"
  by (simp add: wrap64_def)

lemma wrap_step: "wrap64 (wrap64 s + wrap64 a + b) = wrap64 (s + a + b)"
proof -
  have "wrap64 (wrap64 s + wrap64 a + b) = wrap64 (wrap64 s + (wrap64 a + b))"
    by (simp add: add.assoc)
  also have "\<dots> = wrap64 (s + (wrap64 a + b))" by (rule wrap64_add_left)
  also have "\<dots> = wrap64 (wrap64 a + (s + b))" by (simp add: add.left_commute)
  also have "\<dots> = wrap64 (a + (s + b))" by (rule wrap64_add_left)
  finally show ?thesis by (simp add: add.left_commute add.assoc)
qed

lemma wsum_wrap:
  "foldl (\<lambda>s (c, v). wrap64 (s + wrap64 (c * v))) (wrap64 s) cvs =
     wrap64 (s + (\<Sum>(c, v)\<leftarrow>cvs. c * v))"
proof (induction cvs arbitrary: s)
  case Nil
  show ?case by simp
next
  case (Cons cv cvs)
  obtain c v where cv: "cv = (c, v)" by (cases cv)
  have "foldl (\<lambda>s (c, v). wrap64 (s + wrap64 (c * v))) (wrap64 s) (cv # cvs) =
        foldl (\<lambda>s (c, v). wrap64 (s + wrap64 (c * v))) (wrap64 (wrap64 s + wrap64 (c * v))) cvs"
    by (simp add: cv)
  also have "\<dots> = wrap64 (wrap64 s + wrap64 (c * v) + (\<Sum>(c, v)\<leftarrow>cvs. c * v))"
    by (rule Cons.IH)
  also have "\<dots> = wrap64 (s + c * v + (\<Sum>(c, v)\<leftarrow>cvs. c * v))"
    by (rule wrap_step)
  finally show ?case by (simp add: cv add.assoc)
qed

lemma sobel_sums_wrap:
  assumes "has_shape h w g" "1 \<le> y" "y < h - 1" "1 \<le> x" "x < w - 1"
  shows "sobel_sums ops g y x =
     Inr (wrap64 (convolve3 Gx (level ops g) y x), wrap64 (convolve3 Gy (level ops g) y x))"
proof -
  have ix: "index2 g (y + ky) (x + kx) = Inr (g ! nat (y + ky) ! nat (x + kx))"
    if "ky \<in> {-1, 0, 1}" "kx \<in> {-1, 0, 1}" for ky kx
    by (rule index2_shape[OF assms(1)]) (use that assms in auto)
  note ixs = ix[of "-1" "-1", simplified] ix[of "-1" 0, simplified] ix[of "-1" 1, simplified]
    ix[of 0 "-1", simplified] ix[of 0 0, simplified] ix[of 0 1, simplified]
    ix[of 1 "-1", simplified] ix[of 1 0, simplified] ix[of 1 1, simplified]
  let ?p = "level ops g"
  let ?cells = "\<lambda>k. [(k ! 0 ! 0, ?p (y + - 1) (x + - 1)), (k ! 0 ! 1, ?p (y + - 1) (x + 0)),
      (k ! 0 ! 2, ?p (y + - 1) (x + 1)),
      (k ! 1 ! 0, ?p (y + 0) (x + - 1)), (k ! 1 ! 1, ?p (y + 0) (x + 0)), (k ! 1 ! 2, ?p (y + 0) (x + 1)),
      (k ! 2 ! 0, ?p (y + 1) (x + - 1)), (k ! 2 ! 1, ?p (y + 1) (x + 0)), (k ! 2 ! 2, ?p (y + 1) (x + 1))]"
  have "sobel_sums ops g y x =
      Inr (foldl (\<lambda>s (c, v). wrap64 (s + wrap64 (c * v))) (wrap64 0) (?cells gx),
           foldl (\<lambda>s (c, v). wrap64 (s + wrap64 (c * v))) (wrap64 0) (?cells gy))"
    by (simp add: sobel_sums_def upto_m1_1 ixs gx_def gy_def level_def wrap64_0)
  also have "\<dots> = Inr (wrap64 (0 + (\<Sum>(c, v)\<leftarrow>?cells gx. c * v)), wrap64 (0 + (\<Sum>(c, v)\<leftarrow>?cells gy. c * v)))"
    by (simp only: wsum_wrap)
  also have "(\<Sum>(c, v)\<leftarrow>?cells gx. c * v) = convolve3 Gx ?p y x"
    by (simp add: convolve3_def gx_def Gx_def)
  also have "(\<Sum>(c, v)\<leftarrow>?cells gy. c * v) = convolve3 Gy ?p y x"
    by (simp add: convolve3_def gy_def Gy_def)
  finally show ?thesis by simp
qed

lemma sobel_pixel_wrap:
  assumes gray: "has_shape h w g" and edge: "has_shape h w edge"
    and yx: "1 \<le> y" "y < h - 1" "1 \<le> x" "x < w - 1"
  shows "sobel_pixel ops g threshold y x edge =
     Inr (edge[nat y := (edge ! nat y)[nat x :=
       (let sx = wrap64 (convolve3 Gx (level ops g) y x);
            sy = wrap64 (convolve3 Gy (level ops g) y x);
            magnitude = sqrt64 ops (float64_of_int ops (wrap64 (wrap64 (sx * sx) + wrap64 (sy * sy))))
        in if int16_of ops magnitude < threshold then 0 else magnitude)]])"
proof -
  let ?sx = "wrap64 (convolve3 Gx (level ops g) y x)"
  let ?sy = "wrap64 (convolve3 Gy (level ops g) y x)"
  let ?m = "sqrt64 ops (float64_of_int ops (wrap64 (wrap64 (?sx * ?sx) + wrap64 (?sy * ?sy))))"
  let ?e1 = "edge[nat y := (edge ! nat y)[nat x := ?m]]"
  have y: "0 \<le> y" "y < h" and x: "0 \<le> x" "x < w" using yx by auto
  have ylen: "nat y < length edge" using y edge by (auto simp: has_shape_def)
  then have "edge ! nat y \<in> set edge" by simp
  then have xlen: "nat x < length (edge ! nat y)" using x edge by (auto simp: has_shape_def)
  have s1: "store2 edge y x ?m = Inr ?e1" by (rule store2_shape[OF edge y x])
  have e1: "has_shape h w ?e1" by (rule has_shape_update_cell[OF edge ylen])
  have r1: "index2 ?e1 y x = Inr ?m"
    using index2_shape[OF e1 y x] ylen xlen by simp
  have s2: "store2 ?e1 y x 0 = Inr (edge[nat y := (edge ! nat y)[nat x := 0]])"
    using store2_shape[OF e1 y x, of 0] ylen by simp
  show ?thesis
    by (simp add: sobel_pixel_def sobel_sums_wrap[OF gray yx] s1 r1 s2 Let_def)
qed

lemma convolve3_Gx_bound:
  assumes "\<And>ky kx. ky \<in> {-1, 0, 1} \<Longrightarrow> kx \<in> {-1, 0, 1} \<Longrightarrow> 0 \<le> p (y + ky) (x + kx) \<and> p (y + ky) (x + kx) \<le> 255"
  shows "\<bar>convolve3 Gx p y x\<bar> \<le> 1020"
  using assms[of "-1" "-1"] assms[of "-1" 0] assms[of "-1" 1] assms[of 0 "-1"] assms[of 0 0] assms[of 0 1]
    assms[of 1 "-1"] assms[of 1 0] assms[of 1 1]
  by (simp add: convolve3_def Gx_def) arith

lemma convolve3_Gy_bound:
  assumes "\<And>ky kx. ky \<in> {-1, 0, 1} \<Longrightarrow> kx \<in> {-1, 0, 1} \<Longrightarrow> 0 \<le> p (y + ky) (x + kx) \<and> p (y + ky) (x + kx) \<le> 255"
  shows "\<bar>convolve3 Gy p y x\<bar> \<le> 1020"
  using assms[of "-1" "-1"] assms[of "-1" 0] assms[of "-1" 1] assms[of 0 "-1"] assms[of 0 0] assms[of 0 1]
    assms[of 1 "-1"] assms[of 1 0] assms[of 1 1]
  by (simp add: convolve3_def Gy_def) arith

lemma small_int64: "\<bar>n\<bar> \<le> 4294967296 \<Longrightarrow> int64 n"
  by (simp add: int64_def) arith

lemma square_bound:
  fixes a :: int
  assumes "\<bar>a\<bar> \<le> 1020"
  shows "\<bar>a * a\<bar> \<le> 1040400"
proof -
  have "\<bar>a\<bar> * \<bar>a\<bar> \<le> 1020 * 1020" using assms by (intro mult_mono) auto
  then show ?thesis by (simp add: abs_mult)
qed

lemma sobel_no_wrap:
  assumes "\<bar>sx\<bar> \<le> 1020" "\<bar>sy\<bar> \<le> 1020"
  shows "wrap64 sx = sx" "wrap64 sy = sy" "wrap64 (wrap64 (sx * sx) + wrap64 (sy * sy)) = sx * sx + sy * sy"
proof -
  show 1: "wrap64 sx = sx" using assms by (intro wrap64_id small_int64) auto
  show 2: "wrap64 sy = sy" using assms by (intro wrap64_id small_int64) auto
  have a: "wrap64 (sx * sx) = sx * sx"
    using square_bound[OF assms(1)] by (intro wrap64_id small_int64) auto
  have b: "wrap64 (sy * sy) = sy * sy"
    using square_bound[OF assms(2)] by (intro wrap64_id small_int64) auto
  have "\<bar>sx * sx + sy * sy\<bar> \<le> 4294967296"
    using square_bound[OF assms(1)] square_bound[OF assms(2)] by linarith
  then show "wrap64 (wrap64 (sx * sx) + wrap64 (sy * sy)) = sx * sx + sy * sy"
    unfolding a b by (intro wrap64_id small_int64)
qed

lemma level_bounds:
  assumes "has_shape h w g" "\<forall>row\<in>set g. \<forall>v\<in>set row. 0 \<le> int_of ops v \<and> int_of ops v \<le> 255"
    "0 \<le> y" "y < h" "0 \<le> x" "x < w"
  shows "0 \<le> level ops g y x \<and> level ops g y x \<le> 255"
proof -
  have "nat y < length g" using assms by (auto simp: has_shape_def)
  then have r: "g ! nat y \<in> set g" by simp
  then have "nat x < length (g ! nat y)" using assms by (auto simp: has_shape_def)
  then have "g ! nat y ! nat x \<in> set (g ! nat y)" by simp
  with r assms(2) show ?thesis by (auto simp: level_def)
qed

subsection \<open>NewTemplateFromImage\<close>

lemma sobelEdge_shape:
  assumes gray: "has_shape height width gray_img"
  shows "\<exists>edge. sobelEdge ops gray_img width height threshold = Inr edge \<and> has_shape height width edge"
proof -
  let ?z = "replicate (nat height) (replicate (nat width) (0::'a))"
  have hw: "0 \<le> height" "0 \<le> width" using gray by (auto simp: has_shape_def)
  have z: "has_shape height width ?z" by (rule has_shape_replicate[OF hw])
  have "\<exists>g'. for_each [1..height - 1 - 1] (\<lambda>y. for_each [1..width - 1 - 1]
        (\<lambda>x. sobel_pixel ops gray_img threshold y x)) ?z = Inr g' \<and> has_shape height width g' \<and>
     (\<forall>ny nx. ny < nat height \<longrightarrow> nx < nat width \<longrightarrow>
        g' ! ny ! nx = (if int ny \<in> set [1..height - 1 - 1] \<and> int nx \<in> set [1..width - 1 - 1]
                        then (\<lambda>y x old. let sx = wrap64 (convolve3 Gx (level ops gray_img) y x);
            sy = wrap64 (convolve3 Gy (level ops gray_img) y x);
            magnitude = sqrt64 ops (float64_of_int ops (wrap64 (wrap64 (sx * sx) + wrap64 (sy * sy))))
        in if int16_of ops magnitude < threshold then 0 else magnitude) (int ny) (int nx) (?z ! ny ! nx) else ?z ! ny ! nx))"
  proof (rule grid_loop[OF z], goal_cases)
    case (5 y x g')
    then have yx: "1 \<le> y" "y < height - 1" "1 \<le> x" "x < width - 1" by auto
    show ?case by (rule sobel_pixel_wrap[OF gray 5(3) yx])
  qed auto
  then show ?thesis by (auto simp: sobelEdge_def make_grid_shape[OF hw])
qed

lemma gray_matrix_cells:
  assumes "0 \<le> h" "0 \<le> w"
  shows "\<exists>g. gray_matrix ops gray img w h (replicate (nat h) (replicate (nat w) z)) = Inr g \<and>
      has_shape h w g \<and>
      (\<forall>y x. 0 \<le> y \<and> y < h \<and> 0 \<le> x \<and> x < w \<longrightarrow>
         g ! nat y ! nat x = float64_of_int ops (gray_level gray img y x))"
proof -
  let ?z = "replicate (nat h) (replicate (nat w) z)"
  have z: "has_shape h w ?z" by (rule has_shape_replicate[OF assms])
  have "\<exists>g'. for_each [0..h - 1] (\<lambda>y. for_each [0..w - 1]
        (\<lambda>x kern. let c = At img (x + MinX img) (y + MinY img);
             grayValue = float64_of_int ops (uint (gray c))
         in store2 kern y x grayValue)) ?z = Inr g' \<and> has_shape h w g' \<and>
     (\<forall>ny nx. ny < nat h \<longrightarrow> nx < nat w \<longrightarrow>
        g' ! ny ! nx = (if int ny \<in> set [0..h - 1] \<and> int nx \<in> set [0..w - 1]
                        then (\<lambda>y x old. float64_of_int ops (gray_level gray img y x)) (int ny) (int nx) (?z ! ny ! nx)
                        else ?z ! ny ! nx))"
  proof (rule grid_loop[OF z], goal_cases)
    case (5 y x g')
    then have "0 \<le> y" "y < h" "0 \<le> x" "x < w" by auto
    then show ?case by (simp add: store2_shape[OF 5(3)] Let_def gray_level_def)
  qed auto
  then obtain g' where g': "gray_matrix ops gray img w h ?z = Inr g'" "has_shape h w g'"
    and cells: "\<forall>ny nx. ny < nat h \<longrightarrow> nx < nat w \<longrightarrow>
        g' ! ny ! nx = (if int ny \<in> set [0..h - 1] \<and> int nx \<in> set [0..w - 1]
                        then float64_of_int ops (gray_level gray img (int ny) (int nx))
                        else ?z ! ny ! nx)"
    unfolding gray_matrix_def by auto
  have "g' ! nat y ! nat x = float64_of_int ops (gray_level gray img y x)"
    if "0 \<le> y \<and> y < h \<and> 0 \<le> x \<and> x < w" for y x
    using cells[rule_format, of "nat y" "nat x"] that by auto
  with g' show ?thesis by blast
qed

lemma kernel_sum_eq:
  assumes "has_shape h w g"
  shows "kernel_sum ops g w h = Inr (float_sum (map (float32_of ops) (concat g)))"
proof -
  have "kernel_sum ops g w h = Inr (foldl (\<lambda>s v. s + float32_of ops v) 0 (concat g))"
    unfolding kernel_sum_def
    by (rule grid_read_loop[OF assms]) (simp add: index2_shape[OF assms])
  then show ?thesis by (simp add: float_sum_def foldl_map)
qed

lemma sum_squares_eq:
  assumes "has_shape h w g"
  shows "sum_squares ops g w h =
    Inr (float_sum (map (\<lambda>c. float32_of ops c * float32_of ops c) (concat g)))"
proof -
  have "sum_squares ops g w h =
      Inr (foldl (\<lambda>s v. s + float32_of ops v * float32_of ops v) 0 (concat g))"
    unfolding sum_squares_def
    by (rule grid_read_loop[OF assms]) (simp add: index2_shape[OF assms])
  then show ?thesis by (simp add: float_sum_def foldl_map)
qed

lemma subtract_mean_eq:
  assumes "has_shape h w g"
  shows "subtract_mean ops m w h g = Inr (map (map (\<lambda>e. float64_of ops (float32_of ops e - m))) g)"
proof -
  let ?F = "\<lambda>e. float64_of ops (float32_of ops e - m)"
  have "\<exists>g'. for_each [0..h - 1] (\<lambda>y. for_each [0..w - 1]
        (\<lambda>x edge. case index2 edge y x of Inl e \<Rightarrow> Inl e
           | Inr v \<Rightarrow> store2 edge y x (float64_of ops (float32_of ops v - m)))) g = Inr g' \<and>
      has_shape h w g' \<and>
     (\<forall>ny nx. ny < nat h \<longrightarrow> nx < nat w \<longrightarrow>
        g' ! ny ! nx = (if int ny \<in> set [0..h - 1] \<and> int nx \<in> set [0..w - 1]
                        then (\<lambda>y x. ?F) (int ny) (int nx) (g ! ny ! nx) else g ! ny ! nx))"
  proof (rule grid_loop[OF assms], goal_cases)
    case (5 y x g')
    then have "0 \<le> y" "y < h" "0 \<le> x" "x < w" by auto
    then show ?case by (simp add: store2_shape[OF 5(3)] index2_shape[OF 5(3)])
  qed auto
  then obtain g' where g': "subtract_mean ops m w h g = Inr g'" "has_shape h w g'"
    and cells: "\<forall>ny nx. ny < nat h \<longrightarrow> nx < nat w \<longrightarrow>
        g' ! ny ! nx = (if int ny \<in> set [0..h - 1] \<and> int nx \<in> set [0..w - 1]
                        then ?F (g ! ny ! nx) else g ! ny ! nx)"
    unfolding subtract_mean_def by auto
  have "g' = map (map ?F) g"
  proof (rule nth_equalityI)
    show l: "length g' = length (map (map ?F) g)" using g'(2) assms by (simp add: has_shape_def)
    fix ny assume ny: "ny < length g'"
    then have nyh: "ny < nat h" using g'(2) by (auto simp: has_shape_def)
    have r1: "g' ! ny \<in> set g'" using ny by simp
    have r2: "g ! ny \<in> set g" using ny l by simp
    have l1: "length (g' ! ny) = nat w" using r1 g'(2) by (auto simp: has_shape_def)
    have l2: "length (g ! ny) = nat w" using r2 assms by (auto simp: has_shape_def)
    have "g' ! ny = map ?F (g ! ny)"
    proof (rule nth_equalityI)
      show "length (g' ! ny) = length (map ?F (g ! ny))" by (simp add: l1 l2)
      fix nx assume "nx < length (g' ! ny)"
      then have nx: "nx < nat w" by (simp add: l1)
      then show "g' ! ny ! nx = map ?F (g ! ny) ! nx"
        using cells[rule_format, OF nyh nx] nyh l2 by auto
    qed
    then show "g' ! ny = map (map ?F) g ! ny" using ny l by simp
  qed
  with g'(1) show ?thesis by simp
qed

lemma has_shape_map: "has_shape h w g \<Longrightarrow> has_shape h w (map (map f) g)"
  by (auto simp: has_shape_def)

lemma NewTemplateFromImage_built:
  fixes ops :: "(('d::{times,zero}), ('s::{plus,minus,times,inverse,zero})) float_ops"
  assumes width: "Dx (rs img (target_width ops img scale)) = wrap64 (target_width ops img scale)"
    and wf: "0 \<le> Dx (rs img (target_width ops img scale))" "0 \<le> Dy (rs img (target_width ops img scale))"
  shows "\<exists>g edge.
     has_shape (Dy (rs img (target_width ops img scale))) (Dx (rs img (target_width ops img scale))) g \<and>
     (\<forall>y x. 0 \<le> y \<and> y < Dy (rs img (target_width ops img scale)) \<and>
            0 \<le> x \<and> x < Dx (rs img (target_width ops img scale)) \<longrightarrow>
         g ! nat y ! nat x = float64_of_int ops (gray_level gray (rs img (target_width ops img scale)) y x)) \<and>
     sobelEdge ops g (Dx (rs img (target_width ops img scale))) (Dy (rs img (target_width ops img scale))) 50 = Inr edge \<and>
     has_shape (Dy (rs img (target_width ops img scale))) (Dx (rs img (target_width ops img scale))) edge \<and>
     NewTemplateFromImage ops rs gray img scale =
       Inr \<lparr> kernel = mean_centred ops edge (Dy (rs img (target_width ops img scale))) (Dx (rs img (target_width ops img scale))),
             kernelWidth = Dx (rs img (target_width ops img scale)),
             kernelHeight = Dy (rs img (target_width ops img scale)),
             sumKernel = float_sum (map (\<lambda>c. float32_of ops c * float32_of ops c)
                 (concat (mean_centred ops edge (Dy (rs img (target_width ops img scale))) (Dx (rs img (target_width ops img scale)))))),
             originalSize = (Dx img, Dy img) \<rparr>"
proof -
  let ?img' = "rs img (target_width ops img scale)"
  let ?h = "Dy ?img'"
  let ?w = "Dx ?img'"
  have hw: "0 \<le> ?h" "0 \<le> ?w" using wf by simp_all
  obtain g where g: "gray_matrix ops gray ?img' ?w ?h (replicate (nat ?h) (replicate (nat ?w) 0)) = Inr g"
    "has_shape ?h ?w g"
    "\<forall>y x. 0 \<le> y \<and> y < ?h \<and> 0 \<le> x \<and> x < ?w \<longrightarrow>
         g ! nat y ! nat x = float64_of_int ops (gray_level gray ?img' y x)"
    using gray_matrix_cells[OF hw, of ops gray ?img' 0] by blast
  obtain edge where edge: "sobelEdge ops g ?w ?h 50 = Inr edge" "has_shape ?h ?w edge"
    using sobelEdge_shape[OF g(2), of ops 50] by blast
  let ?k = "mean_centred ops edge ?h ?w"
  have k: "has_shape ?h ?w ?k" unfolding mean_centred_def Let_def by (rule has_shape_map[OF edge(2)])
  have sub: "subtract_mean ops (float_sum (map (float32_of ops) (concat edge)) /
        float32_of_int ops (wrap64 (?h * ?w))) ?w ?h edge = Inr ?k"
    by (simp add: subtract_mean_eq[OF edge(2)] mean_centred_def Let_def)
  have "NewTemplateFromImage ops rs gray img scale =
       Inr \<lparr> kernel = ?k, kernelWidth = ?w, kernelHeight = ?h,
             sumKernel = float_sum (map (\<lambda>c. float32_of ops c * float32_of ops c) (concat ?k)),
             originalSize = (Dx img, Dy img) \<rparr>"
    by (simp add: NewTemplateFromImage_def Let_def width[symmetric]
        make_grid_shape[OF hw] g(1) edge(1) kernel_sum_eq[OF edge(2)] sub sum_squares_eq[OF k])
  with g(2,3) edge show ?thesis by blast
qed

lemma NewTemplateFromImage_mismatch:
  "Dx (rs img (target_width ops img scale)) \<noteq> wrap64 (target_width ops img scale) \<Longrightarrow>
     NewTemplateFromImage ops rs gray img scale = Inl DimensionMismatch"
  by (simp add: NewTemplateFromImage_def Let_def)

lemma NewTemplateFromImage_originalSize:
  "NewTemplateFromImage ops rs gray img scale = Inr t \<Longrightarrow> originalSize t = (Dx img, Dy img)"
  by (auto simp: NewTemplateFromImage_def Let_def split: if_splits sum.splits)

lemma for_each_error:
  assumes "for_each ks body st = Inl e"
  shows "\<exists>k st'. body k st' = Inl e"
  using assms
proof (induction ks arbitrary: st)
  case Nil
  then show ?case by simp
next
  case (Cons k ks)
  then show ?case by (cases "body k st") auto
qed

lemma index2_error: "index2 g y x = Inl e \<Longrightarrow> e = IndexOutOfRange"
  by (auto simp: index2_def index_def split: if_splits sum.splits)

lemma store2_error: "store2 g y x v = Inl e \<Longrightarrow> e = IndexOutOfRange"
  by (auto simp: store2_def index_def split: if_splits sum.splits)

lemma make_grid_error: "make_grid h w z = Inl e \<Longrightarrow> e \<noteq> DimensionMismatch"
  by (auto simp: make_grid_def make_slice_def store_def split: if_splits sum.splits dest!: for_each_error)

lemma gray_matrix_error: "gray_matrix ops gray img w h k = Inl e \<Longrightarrow> e \<noteq> DimensionMismatch"
  by (auto simp: gray_matrix_def Let_def dest!: for_each_error store2_error)

lemma sobel_sums_error: "sobel_sums ops g y x = Inl e \<Longrightarrow> e \<noteq> DimensionMismatch"
  by (auto simp: sobel_sums_def dest!: for_each_error index2_error split: sum.splits prod.splits)

lemma sobel_pixel_error: "sobel_pixel ops g th y x edge = Inl e \<Longrightarrow> e \<noteq> DimensionMismatch"
  by (auto simp: sobel_pixel_def dest!: sobel_sums_error index2_error store2_error
      split: sum.splits prod.splits if_splits)

lemma sobelEdge_error: "sobelEdge ops g w h th = Inl e \<Longrightarrow> e \<noteq> DimensionMismatch"
  by (auto simp: sobelEdge_def dest!: for_each_error make_grid_error sobel_pixel_error split: sum.splits)

lemma kernel_sum_error: "kernel_sum ops g w h = Inl e \<Longrightarrow> e \<noteq> DimensionMismatch"
  by (auto simp: kernel_sum_def dest!: for_each_error index2_error split: sum.splits)

lemma subtract_mean_error: "subtract_mean ops m w h g = Inl e \<Longrightarrow> e \<noteq> DimensionMismatch"
  by (auto simp: subtract_mean_def dest!: for_each_error index2_error store2_error split: sum.splits)

lemma sum_squares_error: "sum_squares ops g w h = Inl e \<Longrightarrow> e \<noteq> DimensionMismatch"
  by (auto simp: sum_squares_def dest!: for_each_error index2_error split: sum.splits)

lemma NewTemplateFromImage_mismatch_only:
  assumes "NewTemplateFromImage ops rs gray img scale = Inl DimensionMismatch"
  shows "Dx (rs img (target_width ops img scale)) \<noteq> wrap64 (target_width ops img scale)"
proof
  assume eq: "Dx (rs img (target_width ops img scale)) = wrap64 (target_width ops img scale)"
  from assms eq show False
    by (auto simp: NewTemplateFromImage_def Let_def split: sum.splits
        dest: make_grid_error gray_matrix_error sobelEdge_error kernel_sum_error
          subtract_mean_error sum_squares_error)
qed

lemma NewTemplateFromImage_template_ok:
  fixes ops :: "(('d::{times,zero}), ('s::{plus,minus,times,inverse,zero})) float_ops"
  assumes "NewTemplateFromImage ops rs gray img scale = Inr t"
    and "0 \<le> Dx (rs img (target_width ops img scale))" "0 \<le> Dy (rs img (target_width ops img scale))"
  shows "template_ok t"
proof -
  have w: "Dx (rs img (target_width ops img scale)) = wrap64 (target_width ops img scale)"
    using assms(1) by (auto simp: NewTemplateFromImage_def Let_def split: if_splits)
  from NewTemplateFromImage_built[where rs = rs and img = img and ops = ops and scale = scale
      and gray = gray, OF w assms(2,3)] assms(1)
  show ?thesis
    by (auto simp: template_ok_def mean_centred_def Let_def intro: has_shape_map)
qed

subsection \<open>The example\<close>

lemmas eval_simps = FindMatch_def scan_windows_def for_loop.simps wrap64_def match_window_def
    window_sums_def crop_sum_def crop_products_def index2_def index_def Let_def exact_ops_def
    denominator_of_def rescale_def trunc_def upto_rec1 ex_template_def ex_scene_def ex_match_def

lemma ex_run_low:
  "FindMatch exact_ops ex_template ex_scene 1 (- 2) 1 =
     Some (Inr [ex_match 0 0 1, ex_match 1 0 (- 1), ex_match 1 1 1])"
  by (simp add: eval_simps)

lemma ex_run_high:
  "FindMatch exact_ops ex_template ex_scene 1 0 1 = Some (Inr [ex_match 0 0 1, ex_match 1 1 1])"
  by (simp add: eval_simps)

lemma ex_flat: "window_sums exact_ops ex_template ex_scene 1 0 = Inr (0, 0)"
  by (simp add: eval_simps)

lemma sqrt_810000: "sqrt 810000 = 900"
  by (rule real_sqrt_unique) simp_all

lemma upto_0_2: "[0..(2::int)] = [0, 1, 2]" by (simp add: upto_rec1)
lemma upto_1_1: "[1..(1::int)] = [1]" by simp

lemma ex_tw: "target_width exact_ops ex_image 1 = 3"
  by (simp add: target_width_def exact_ops_def ex_image_def Dx_def trunc_def)

lemma ex_gray: "gray_matrix exact_ops (\<lambda>c. c) ex_image 3 3 (replicate 3 (replicate 3 0)) = Inr ex_gray_grid"
  by (simp add: gray_matrix_def upto_0_2 ex_image_def store2_def index_def exact_ops_def ex_gray_grid_def
      numeral_3_eq_3 Let_def)

lemma ex_sobel: "sobelEdge exact_ops ex_gray_grid 3 3 50 = Inr [[0, 0, 0], [0, 900, 0], [0, 0, 0]]"
  by (simp add: sobelEdge_def make_grid_def make_slice_def store_def upto_0_2 upto_m1_1 sobel_pixel_def sobel_sums_def
      index2_def index_def store2_def gx_def gy_def exact_ops_def ex_gray_grid_def wrap64_def trunc_def
      numeral_3_eq_3 sqrt_810000)

lemma ex_edge_shape: "has_shape 3 3 [[0, 0, 0], [0, 900, 0], [0, 0, (0::real)]]"
  by (simp add: has_shape_def)

lemma ex_template_built: "NewTemplateFromImage exact_ops ex_resize (\<lambda>c. c) ex_image 1 = Inr ex_built"
proof -
  have r: "ex_resize ex_image 3 = ex_image" by (simp add: ex_resize_def ex_image_def Dx_def)
  have d: "Dx ex_image = 3" "Dy ex_image = 3" by (simp_all add: ex_image_def Dx_def Dy_def)
  have mg: "make_grid 3 3 (0::real) = Inr (replicate 3 (replicate 3 0))"
    using make_grid_shape[of 3 3 "0::real"] by (simp add: numeral_3_eq_3)
  have ks: "kernel_sum exact_ops [[0, 0, 0], [0, 900, 0], [0, 0, 0]] 3 3 = Inr 900"
    by (simp add: kernel_sum_eq[OF ex_edge_shape] float_sum_def exact_ops_def)
  have sm: "subtract_mean exact_ops 100 3 3 [[0, 0, 0], [0, 900, 0], [0, 0, 0]] = Inr (kernel ex_built)"
    by (simp add: subtract_mean_eq[OF ex_edge_shape] exact_ops_def ex_built_def)
  have kshape: "has_shape 3 3 (kernel ex_built)" by (simp add: has_shape_def ex_built_def)
  have ss: "sum_squares exact_ops (kernel ex_built) 3 3 = Inr 720000"
    by (subst sum_squares_eq[OF kshape]) (simp add: float_sum_def exact_ops_def ex_built_def)
  have f: "float32_of_int exact_ops 9 = 9" by (simp add: exact_ops_def)
  show ?thesis
    by (simp add: NewTemplateFromImage_def Let_def ex_tw r d wrap64_def mg ex_gray ex_sobel ks f sm ss)
       (simp add: ex_built_def)
qed

lemma sqrt_720000_sq: "sqrt 518400000000 = 720000"
  by (rule real_sqrt_unique) simp_all

lemma ex_scaled_run:
  "FindMatch exact_ops ex_built ex_scene5 1 (1 / 2) (1 / 2) =
     Some (Inr [\<lparr> X = 2, Y = 0, Width = 3, Height = 3, Score = 1 \<rparr>])"
  by (simp add: FindMatch_def scan_windows_def for_loop.simps wrap64_def match_window_def
    window_sums_def crop_sum_def crop_products_def index2_def index_def Let_def exact_ops_def
    denominator_of_def rescale_def trunc_def upto_0_2 ex_built_def ex_scene5_def sqrt_720000_sq)

lemma int16_below_threshold_exact:
  "0 \<le> m \<Longrightarrow> (int16_of exact_ops m < threshold) = (m < real_of_int threshold)"
  by (simp add: exact_ops_def trunc_def floor_less_iff)

subsection \<open>The claims\<close>

text \<open>
  C4. On a scene grid with zero rows \<open>FindMatch\<close> returns at once: the result is the
  empty sequence of matches, it is not a panic and the call returns, whatever the
  template, stride, threshold and scale are.
\<close>

theorem FindMatch_empty_scene:
  "FindMatch ops t [] stride threshold scale = Some (Inr [])"
  by (simp add: FindMatch_def)

text \<open>
  C10. For a well-formed template and a rectangular scene (both of sizes a slice can
  have), a stride from 1 on makes \<open>FindMatch\<close> return, and it returns a list of
  matches, not a panic: every index it used was in range. The stride matters: with
  stride 0 and at least one window below the loop bounds the call never returns.
\<close>

theorem FindMatch_terminates_in_bounds:
  assumes "template_ok t" "kernelHeight t < 2 ^ 63" "kernelWidth t < 2 ^ 63"
    and "rectangular scene" "int (length scene) < 2 ^ 62" "int (length (scene ! 0)) < 2 ^ 62"
  shows "(1 \<le> stride \<and> stride < 2 ^ 63 \<longrightarrow>
           (\<exists>ms. FindMatch ops t scene stride threshold scale = Some (Inr ms))) \<and>
         (kernelHeight t < int (length scene) \<and> kernelWidth t < int (length (scene ! 0)) \<longrightarrow>
           FindMatch ops t scene 0 threshold scale = None)"
proof (intro conjI impI)
  assume s: "1 \<le> stride \<and> stride < 2 ^ 63"
  let ?n = "int (length scene) - kernelHeight t"
  let ?m = "int (length (scene ! 0)) - kernelWidth t"
  have k: "0 \<le> kernelHeight t" "0 \<le> kernelWidth t" using assms(1) by (simp_all add: template_ok_def has_shape_def)
  have "\<exists>ms'. for_each (steps 0 ?n stride) (\<lambda>i.
      for_each (steps 0 ?m stride) (match_window ops t scene threshold scale i)) [] = Inr ms'"
  proof (rule for_each_ok, rule for_each_ok)
    fix i j ms
    assume "i \<in> set (steps 0 ?n stride)" "j \<in> set (steps 0 ?m stride)"
    then have "0 \<le> i" "i + kernelHeight t \<le> int (length scene)"
      "0 \<le> j" "j + kernelWidth t \<le> int (length (scene ! 0))"
      by (auto dest!: set_steps)
    then show "\<exists>ms'. match_window ops t scene threshold scale i j ms = Inr ms'"
      by (rule match_window_ok[OF assms(4,1)])
  qed
  moreover have "scan_windows t scene stride (match_window ops t scene threshold scale) [] =
    Some (for_each (steps 0 ?n stride) (\<lambda>i.
      for_each (steps 0 ?m stride) (match_window ops t scene threshold scale i)) [])"
    by (rule scan_windows_steps) (use s k assms in auto)
  ultimately show "\<exists>ms. FindMatch ops t scene stride threshold scale = Some (Inr ms)"
    by (auto simp: FindMatch_def)
next
  assume a: "kernelHeight t < int (length scene) \<and> kernelWidth t < int (length (scene ! 0))"
  let ?n = "int (length scene) - kernelHeight t"
  let ?m = "int (length (scene ! 0)) - kernelWidth t"
  have k: "0 \<le> kernelHeight t" "0 \<le> kernelWidth t" using assms(1) by (simp_all add: template_ok_def has_shape_def)
  have n: "wrap64 ?n = ?n" "0 < ?n"
    using assms a k by (auto intro!: wrap64_id simp: int64_def)
  have m: "wrap64 ?m = ?m" "0 < ?m"
    using assms a k by (auto intro!: wrap64_id simp: int64_def)
  have body: "\<exists>ms'. Some (match_window ops t scene threshold scale 0 0 ms) = Some (Inr ms')" for ms
    using match_window_ok[OF assms(4,1), of 0 0 ops threshold scale ms] a by simp
  have inner: "for_loop ?m 0 (\<lambda>j st'. Some (match_window ops t scene threshold scale 0 j st')) 0 ms = None" for ms
    by (rule for_loop_zero_diverges) (use body m in auto)
  have "for_loop ?n 0 (\<lambda>i. for_loop ?m 0 (\<lambda>j st'. Some (match_window ops t scene threshold scale i j st')) 0) 0 [] = None"
    using a by (subst for_loop.simps) (simp add: n inner)
  moreover have "length scene \<noteq> 0" using a k by auto
  ultimately show "FindMatch ops t scene 0 threshold scale = None"
    by (simp add: FindMatch_def scan_windows_def Let_def n m)
qed

theorem FindMatch_terminates_in_bounds_witness:
  "(\<exists>ms. FindMatch exact_ops ex_template ex_scene 1 0 1 = Some (Inr ms)) \<and>
   FindMatch exact_ops ex_template ex_scene 0 0 1 = None"
  using FindMatch_terminates_in_bounds[of ex_template ex_scene 1 exact_ops 0 1]
  by (simp add: template_ok_def has_shape_def rectangular_def ex_template_def ex_scene_def)

text \<open>
  C1. The scan loops stop before the last window: their conditions are
  \<open>i < height - kernelHeight\<close> and \<open>j < width - kernelWidth\<close>. For a 10x10 scene and a
  10x10 kernel with stride 1 the loops reach no window position at all, where the
  specification counts exactly one, \<open>(0, 0)\<close>.
\<close>

theorem scan_misses_last_window:
  "window_positions \<lparr> kernel = replicate 10 (replicate 10 k), kernelWidth = 10, kernelHeight = 10,
       sumKernel = s, originalSize = sz \<rparr> (replicate 10 (replicate 10 v)) 1 = Some (Inr [])"
  by (simp add: window_positions_def scan_windows_def for_loop.simps wrap64_def)

text \<open>
  C5. For a fixed template, scene, stride and scale, and thresholds \<open>theta1 < theta2\<close>,
  the matches reported at \<open>theta2\<close> are among those reported at \<open>theta1\<close>. The only property
  of the \<open>float32\<close> comparison used is that it is transitive.
\<close>

theorem FindMatch_threshold_monotone:
  fixes theta1 theta2 :: "'s::{times,inverse,zero,ord}"
  assumes "\<forall>a b c :: 's. a < b \<longrightarrow> b < c \<longrightarrow> a < c"
    and "theta1 < theta2"
    and "FindMatch ops t scene stride theta1 scale = Some (Inr ms1)"
    and "FindMatch ops t scene stride theta2 scale = Some (Inr ms2)"
  shows "set ms2 \<subseteq> set ms1"
proof -
  have "theta1 < c" if "theta2 < c" for c using assms(1,2) that by blast
  then have "FindMatch ops t scene stride theta2 scale =
      Some (Inr (filter (\<lambda>m. theta2 < Score m) ms1))"
    using assms(3) by (rule FindMatch_threshold_filter)
  with assms(4) show ?thesis by auto
qed

theorem FindMatch_threshold_monotone_witness:
  "FindMatch exact_ops ex_template ex_scene 1 (- 2) 1 =
     Some (Inr [ex_match 0 0 1, ex_match 1 0 (- 1), ex_match 1 1 1]) \<and>
   FindMatch exact_ops ex_template ex_scene 1 0 1 = Some (Inr [ex_match 0 0 1, ex_match 1 1 1]) \<and>
   set [ex_match 0 0 1, ex_match 1 1 1] \<subseteq> set [ex_match 0 0 1, ex_match 1 0 (- 1), ex_match 1 1 1]"
proof -
  have tr: "\<forall>a b c :: real. a < b \<longrightarrow> b < c \<longrightarrow> a < c" by auto
  have lt: "(- 2 :: real) < 0" by simp
  from FindMatch_threshold_monotone[OF tr lt ex_run_low ex_run_high] ex_run_low ex_run_high
  show ?thesis by blast
qed

text \<open>
  C6. A window whose denominator is zero is skipped: the loop body leaves the matches as
  they are, whatever the threshold, so the quotient is not formed there; and every match
  that \<open>FindMatch\<close> returns was appended at a window whose denominator is positive, hence
  not zero. The only property of the \<open>float32\<close> comparison used is \<open>\<not> 0 < 0\<close>. (That a
  flat window has a zero denominator is a fact of the arithmetic: \<open>flat_window_exact\<close>
  shows it in exact arithmetic.)
\<close>

theorem zero_denominator_skipped:
  fixes ops :: "(('d::{plus,minus,times,inverse,zero,one}), ('s::{times,inverse,zero,ord})) float_ops"
  assumes "\<not> (0::'s) < 0"
  shows "(window_sums ops t scene i j = Inr (sp, sq) \<and> denominator_of ops t sq = 0 \<longrightarrow>
            match_window ops t scene threshold scale i j ms = Inr ms) \<and>
         (FindMatch ops t scene stride threshold scale = Some (Inr found) \<longrightarrow>
            (\<forall>m\<in>set found. \<exists>i j sp sq.
               window_sums ops t scene i j = Inr (sp, sq) \<and>
               0 < denominator_of ops t sq \<and> denominator_of ops t sq \<noteq> 0 \<and>
               m = \<lparr> X = rescale ops scale j, Y = rescale ops scale i,
                     Width = fst (originalSize t), Height = snd (originalSize t),
                     Score = float32_of ops sp / denominator_of ops t sq \<rparr>))"
proof (intro conjI impI ballI)
  assume "window_sums ops t scene i j = Inr (sp, sq) \<and> denominator_of ops t sq = 0"
  with assms show "match_window ops t scene threshold scale i j ms = Inr ms"
    by (simp add: match_window_def)
next
  fix m
  assume "FindMatch ops t scene stride threshold scale = Some (Inr found)" "m \<in> set found"
  then have "emitted ops t scene threshold scale m" by (rule FindMatch_emitted)
  then obtain i j sp sq where
    e: "window_sums ops t scene i j = Inr (sp, sq)" "0 < denominator_of ops t sq"
      "m = \<lparr> X = rescale ops scale j, Y = rescale ops scale i,
             Width = fst (originalSize t), Height = snd (originalSize t),
             Score = float32_of ops sp / denominator_of ops t sq \<rparr>"
    unfolding emitted_def by blast
  from e(2) assms have "denominator_of ops t sq \<noteq> 0" by auto
  with e show "\<exists>i j sp sq.
               window_sums ops t scene i j = Inr (sp, sq) \<and>
               0 < denominator_of ops t sq \<and> denominator_of ops t sq \<noteq> 0 \<and>
               m = \<lparr> X = rescale ops scale j, Y = rescale ops scale i,
                     Width = fst (originalSize t), Height = snd (originalSize t),
                     Score = float32_of ops sp / denominator_of ops t sq \<rparr>" by blast
qed

theorem zero_denominator_skipped_witness:
  "window_sums exact_ops ex_template ex_scene 1 0 = Inr (0, 0) \<and>
   denominator_of exact_ops ex_template 0 = 0 \<and>
   match_window exact_ops ex_template ex_scene (- 2) 1 1 0 [ex_match 0 0 1, ex_match 1 0 (- 1)] =
     Inr [ex_match 0 0 1, ex_match 1 0 (- 1)] \<and>
   FindMatch exact_ops ex_template ex_scene 1 (- 2) 1 =
     Some (Inr [ex_match 0 0 1, ex_match 1 0 (- 1), ex_match 1 1 1]) \<and>
   (\<exists>i j sp sq.
      window_sums exact_ops ex_template ex_scene i j = Inr (sp, sq) \<and>
      0 < denominator_of exact_ops ex_template sq \<and> denominator_of exact_ops ex_template sq \<noteq> 0 \<and>
      ex_match 1 0 (- 1) = \<lparr> X = rescale exact_ops 1 j, Y = rescale exact_ops 1 i,
         Width = fst (originalSize ex_template), Height = snd (originalSize ex_template),
         Score = float32_of exact_ops sp / denominator_of exact_ops ex_template sq \<rparr>)"
proof -
  have irr: "\<not> (0::real) < 0" by simp
  have d: "denominator_of exact_ops ex_template 0 = 0"
    by (simp add: denominator_of_def exact_ops_def ex_template_def)
  note th = zero_denominator_skipped[OF irr, of exact_ops ex_template ex_scene 1 0 0 0 "- 2" 1
      "[ex_match 0 0 1, ex_match 1 0 (- 1)]" 1 "[ex_match 0 0 1, ex_match 1 0 (- 1), ex_match 1 1 1]"]
  from th ex_flat d ex_run_low show ?thesis by simp
qed

text \<open>
  C2. A template never matches its own kernel grid. When the scene is the kernel of the
  template, \<open>height - kernelHeight\<close> is 0 and the scan loops, which run while
  \<open>i < height - kernelHeight\<close>, reach no window: \<open>FindMatch\<close> returns the empty list for
  every stride, threshold and scale, where the specification asks for a match at
  \<open>(0, 0)\<close> with a score above 0.999. (In a larger scene the same kernel is found with
  score 1, see \<open>ex_scaled_run\<close>.)
\<close>

theorem self_match_not_found:
  fixes ops :: "(('d::{plus,minus,times,inverse,zero,one}), ('s::{plus,minus,times,inverse,zero,ord})) float_ops"
  assumes "NewTemplateFromImage ops rs gray img scale0 = Inr t"
    and "0 \<le> Dx (rs img (target_width ops img scale0))" "0 \<le> Dy (rs img (target_width ops img scale0))"
  shows "FindMatch ops t (kernel t) stride threshold scale = Some (Inr [])"
proof -
  have "template_ok t" using assms by (rule NewTemplateFromImage_template_ok)
  then have "int (length (kernel t)) = kernelHeight t"
    by (simp add: template_ok_def has_shape_def)
  then show ?thesis
    by (simp add: FindMatch_def scan_windows_def Let_def wrap64_def for_loop.simps)
qed

theorem self_match_not_found_witness:
  "NewTemplateFromImage exact_ops ex_resize (\<lambda>c. c) ex_image 1 = Inr ex_built \<and>
   FindMatch exact_ops ex_built (kernel ex_built) 1 (999 / 1000) 1 = Some (Inr [])"
proof -
  have wf: "0 \<le> Dx (ex_resize ex_image (target_width exact_ops ex_image 1))"
    "0 \<le> Dy (ex_resize ex_image (target_width exact_ops ex_image 1))"
    unfolding ex_tw by (simp_all add: ex_resize_def ex_image_def Dx_def Dy_def)
  from self_match_not_found[OF ex_template_built wf] ex_template_built show ?thesis by simp
qed

text \<open>
  C3. The target width is \<open>uint(float64(originalSize.X) * scale)\<close>: the product is
  truncated, not rounded. For a 3 pixel wide image and scale 5/8 the product is 1.875:
  the target width is 1 where rounding gives 2, and with a resized image of width 1 the
  construction does not fail, although that width differs from the rounded one.
\<close>

theorem target_width_not_rounded:
  "target_width exact_ops ex_image (5 / 8) = 1 \<and>
   round (real_of_int (Dx ex_image) * (5 / 8)) = (2::int) \<and>
   Dx (ex_resize ex_image (target_width exact_ops ex_image (5 / 8))) = 1 \<and>
   NewTemplateFromImage exact_ops ex_resize (\<lambda>c. c) ex_image (5 / 8) \<noteq> Inl DimensionMismatch"
proof -
  have tw: "target_width exact_ops ex_image (5 / 8) = 1"
    by (simp add: target_width_def exact_ops_def ex_image_def Dx_def trunc_def)
  have rd: "round (real_of_int (Dx ex_image) * (5 / 8)) = (2::int)"
    by (simp add: ex_image_def Dx_def round_def)
  have dx: "Dx (ex_resize ex_image (target_width exact_ops ex_image (5 / 8))) = 1"
    unfolding tw by (simp add: ex_resize_def ex_image_def Dx_def)
  have "Dx (ex_resize ex_image (target_width exact_ops ex_image (5 / 8))) =
      wrap64 (target_width exact_ops ex_image (5 / 8))"
    unfolding dx unfolding tw by (simp add: wrap64_def)
  then have "NewTemplateFromImage exact_ops ex_resize (\<lambda>c. c) ex_image (5 / 8) \<noteq> Inl DimensionMismatch"
    using NewTemplateFromImage_mismatch_only[of exact_ops ex_resize "\<lambda>c. c" ex_image "5 / 8"] by blast
  with tw rd dx show ?thesis by blast
qed

text \<open>
  C3, as the code has it. The target width is \<open>uint(float64(originalWidth) * scale)\<close>, in
  exact arithmetic the product with its fraction discarded; the resizer is called with
  it; the construction fails with \<open>DimensionMismatch\<close> exactly when the width of the
  resized image differs from \<open>int(newWidth)\<close>, and then no template is produced.
\<close>

theorem DimensionMismatch_iff:
  fixes ops :: "(('d::{times,zero}), ('s::{plus,minus,times,inverse,zero})) float_ops"
  shows "target_width ops img scale = uint_of ops (float64_of_int ops (Dx img) * scale) \<and>
    (NewTemplateFromImage ops rs gray img scale = Inl DimensionMismatch \<longleftrightarrow>
       Dx (rs img (target_width ops img scale)) \<noteq> wrap64 (target_width ops img scale)) \<and>
    (NewTemplateFromImage ops rs gray img scale = Inl DimensionMismatch \<longrightarrow>
       (\<forall>t. NewTemplateFromImage ops rs gray img scale \<noteq> Inr t)) \<and>
    target_width exact_ops img r = trunc (real_of_int (Dx img) * r)"
proof (intro conjI)
  show "target_width ops img scale = uint_of ops (float64_of_int ops (Dx img) * scale)"
    by (simp add: target_width_def)
  show "NewTemplateFromImage ops rs gray img scale = Inl DimensionMismatch \<longleftrightarrow>
       Dx (rs img (target_width ops img scale)) \<noteq> wrap64 (target_width ops img scale)"
    using NewTemplateFromImage_mismatch_only[of ops rs gray img scale]
      NewTemplateFromImage_mismatch[of rs img ops scale gray] by blast
  show "NewTemplateFromImage ops rs gray img scale = Inl DimensionMismatch \<longrightarrow>
       (\<forall>t. NewTemplateFromImage ops rs gray img scale \<noteq> Inr t)" by simp
  show "target_width exact_ops img r = trunc (real_of_int (Dx img) * r)"
    by (simp add: target_width_def exact_ops_def)
qed

theorem DimensionMismatch_iff_witness:
  "target_width exact_ops ex_image (1 / 4) = 0 \<and>
   Dx (ex_resize ex_image (target_width exact_ops ex_image (1 / 4))) = 3 \<and>
   NewTemplateFromImage exact_ops ex_resize (\<lambda>c. c) ex_image (1 / 4) = Inl DimensionMismatch \<and>
   (\<forall>t. NewTemplateFromImage exact_ops ex_resize (\<lambda>c. c) ex_image (1 / 4) \<noteq> Inr t)"
proof -
  have tw: "target_width exact_ops ex_image (1 / 4) = 0"
    by (simp add: target_width_def exact_ops_def ex_image_def Dx_def trunc_def)
  have dx: "Dx (ex_resize ex_image (target_width exact_ops ex_image (1 / 4))) = 3"
    unfolding tw by (simp add: ex_resize_def ex_image_def Dx_def)
  have ne: "Dx (ex_resize ex_image (target_width exact_ops ex_image (1 / 4))) \<noteq>
      wrap64 (target_width exact_ops ex_image (1 / 4))"
    unfolding dx unfolding tw by (simp add: wrap64_def)
  from DimensionMismatch_iff[of exact_ops ex_image "1 / 4" ex_resize "\<lambda>c. c" "1 / 4"] ne tw dx
  show ?thesis by simp
qed

text \<open>
  C7. On a grey grid of \<open>height\<close> rows and \<open>width\<close> columns whose cells hold grey levels
  (\<open>int(val)\<close> between 0 and 255), \<open>sobelEdge\<close> returns a grid of the same shape. Its border
  ring is zero. An interior cell is the magnitude \<open>sqrt (sx\<^sup>2 + sy\<^sup>2)\<close> of the convolutions
  with \<open>Gx\<close> and \<open>Gy\<close>, or zero when the magnitude is below the threshold; the code tests
  \<open>int16(magnitude) < threshold\<close>, which for the integer threshold and a magnitude that is
  not negative is \<open>magnitude < threshold\<close> (\<open>int16_below_threshold_exact\<close>). No sum wraps
  around.
\<close>

theorem sobelEdge_spec:
  assumes gray: "has_shape height width gray_img"
    and levels: "\<forall>row\<in>set gray_img. \<forall>v\<in>set row. 0 \<le> int_of ops v \<and> int_of ops v \<le> 255"
  shows "\<exists>edge. sobelEdge ops gray_img width height threshold = Inr edge \<and> has_shape height width edge \<and>
     (\<forall>y x. 0 \<le> y \<and> y < height \<and> 0 \<le> x \<and> x < width \<longrightarrow>
        edge ! nat y ! nat x =
          (if y = 0 \<or> y = height - 1 \<or> x = 0 \<or> x = width - 1 then 0
           else sobel_value ops threshold (convolve3 Gx (level ops gray_img) y x)
                  (convolve3 Gy (level ops gray_img) y x)))"
proof -
  let ?V = "\<lambda>y x (old::'a). sobel_value ops threshold (convolve3 Gx (level ops gray_img) y x)
                  (convolve3 Gy (level ops gray_img) y x)"
  let ?z = "replicate (nat height) (replicate (nat width) (0::'a))"
  have hw: "0 \<le> height" "0 \<le> width" using gray by (auto simp: has_shape_def)
  have z: "has_shape height width ?z" by (rule has_shape_replicate[OF hw])
  have body: "sobel_pixel ops gray_img threshold y x g' =
      Inr (g'[nat y := (g' ! nat y)[nat x := ?V y x (g' ! nat y ! nat x)]])"
    if "y \<in> set [1..height - 1 - 1]" "x \<in> set [1..width - 1 - 1]" "has_shape height width g'" for y x g'
  proof -
    have yx: "1 \<le> y" "y < height - 1" "1 \<le> x" "x < width - 1" using that by auto
    have lv: "0 \<le> level ops gray_img (y + ky) (x + kx) \<and> level ops gray_img (y + ky) (x + kx) \<le> 255"
      if "ky \<in> {-1, 0, 1}" "kx \<in> {-1, 0, 1}" for ky kx
      by (rule level_bounds[OF gray levels]) (use that yx in auto)
    have bx: "\<bar>convolve3 Gx (level ops gray_img) y x\<bar> \<le> 1020" by (rule convolve3_Gx_bound) (rule lv)
    have bymag: "\<bar>convolve3 Gy (level ops gray_img) y x\<bar> \<le> 1020" by (rule convolve3_Gy_bound) (rule lv)
    show ?thesis
      by (simp add: sobel_pixel_wrap[OF gray that(3) yx] Let_def sobel_no_wrap[OF bx bymag] sobel_value_def)
  qed
  obtain edge where run: "for_each [1..height - 1 - 1] (\<lambda>y. for_each [1..width - 1 - 1]
        (\<lambda>x. sobel_pixel ops gray_img threshold y x)) ?z = Inr edge"
    and shape: "has_shape height width edge"
    and cells: "\<forall>ny nx. ny < nat height \<longrightarrow> nx < nat width \<longrightarrow>
        edge ! ny ! nx = (if int ny \<in> set [1..height - 1 - 1] \<and> int nx \<in> set [1..width - 1 - 1]
                        then ?V (int ny) (int nx) (?z ! ny ! nx) else ?z ! ny ! nx)"
    using grid_loop[OF z, of "[1..height - 1 - 1]" "[1..width - 1 - 1]"
        "\<lambda>y x. sobel_pixel ops gray_img threshold y x" ?V] body
    by auto
  have "edge ! nat y ! nat x =
          (if y = 0 \<or> y = height - 1 \<or> x = 0 \<or> x = width - 1 then 0
           else ?V y x (0::'a))"
    if "0 \<le> y \<and> y < height \<and> 0 \<le> x \<and> x < width" for y x
    using cells[rule_format, of "nat y" "nat x"] that by auto
  with run shape show ?thesis
    by (simp add: sobelEdge_def make_grid_shape[OF hw])
qed

theorem sobelEdge_spec_witness:
  "has_shape 3 3 ex_gray_grid \<and>
   (\<exists>edge. sobelEdge exact_ops ex_gray_grid 3 3 50 = Inr edge \<and> has_shape 3 3 edge \<and>
      edge ! 0 ! 2 = 0 \<and> edge ! 1 ! 1 = 900)"
proof -
  have s: "has_shape 3 3 ex_gray_grid" by (simp add: has_shape_def ex_gray_grid_def)
  have l: "\<forall>row\<in>set ex_gray_grid. \<forall>v\<in>set row. 0 \<le> int_of exact_ops v \<and> int_of exact_ops v \<le> 255"
    by (simp add: ex_gray_grid_def exact_ops_def trunc_def)
  from sobelEdge_spec[OF s l, of 50] obtain edge where
    e: "sobelEdge exact_ops ex_gray_grid 3 3 50 = Inr edge" "has_shape 3 3 edge"
    and c: "\<forall>y x. 0 \<le> y \<and> y < 3 \<and> 0 \<le> x \<and> x < 3 \<longrightarrow>
        edge ! nat y ! nat x =
          (if y = 0 \<or> y = 3 - 1 \<or> x = 0 \<or> x = 3 - 1 then 0
           else sobel_value exact_ops 50 (convolve3 Gx (level exact_ops ex_gray_grid) y x)
                  (convolve3 Gy (level exact_ops ex_gray_grid) y x))"
    by blast
  have "edge ! 0 ! 2 = 0" using c[rule_format, of 0 2] by simp
  moreover have "edge ! 1 ! 1 = 900"
    using c[rule_format, of 1 1]
    by (simp add: sobel_value_def convolve3_def Gx_def Gy_def level_def ex_gray_grid_def exact_ops_def
        trunc_def sqrt_810000)
  ultimately show ?thesis using s e by blast
qed

text \<open>
  C8. The kernel of a built template is the edge grid of the grey grid of the resized
  image, mean-centred; the stored \<open>sumKernel\<close> is the sum over all cells of that kernel of
  the cell squared (in \<open>float32\<close>, in slice order). It is computed by the construction;
  the search takes the template as a value and its denominator reads the stored field.
\<close>

theorem sumKernel_sum_of_squares:
  fixes ops :: "(('d::{times,zero}), ('s::{plus,minus,times,inverse,zero})) float_ops"
  assumes "NewTemplateFromImage ops rs gray img scale = Inr t"
    and "0 \<le> Dx (rs img (target_width ops img scale))" "0 \<le> Dy (rs img (target_width ops img scale))"
  shows "(\<exists>g edge.
            has_shape (kernelHeight t) (kernelWidth t) g \<and>
            (\<forall>y x. 0 \<le> y \<and> y < kernelHeight t \<and> 0 \<le> x \<and> x < kernelWidth t \<longrightarrow>
               g ! nat y ! nat x =
                 float64_of_int ops (gray_level gray (rs img (target_width ops img scale)) y x)) \<and>
            sobelEdge ops g (kernelWidth t) (kernelHeight t) 50 = Inr edge \<and>
            kernel t = mean_centred ops edge (kernelHeight t) (kernelWidth t)) \<and>
         sumKernel t = float_sum (map (\<lambda>c. float32_of ops c * float32_of ops c) (concat (kernel t))) \<and>
         denominator_of ops t sq =
           float32_of ops (sqrt64 ops (float64_of ops (float32_of ops sq * sumKernel t)))"
proof -
  have w: "Dx (rs img (target_width ops img scale)) = wrap64 (target_width ops img scale)"
    using assms(1) by (auto simp: NewTemplateFromImage_def Let_def split: if_splits)
  from NewTemplateFromImage_built[where rs = rs and img = img and ops = ops and scale = scale
      and gray = gray, OF w assms(2,3)] assms(1)
  show ?thesis by (auto simp: denominator_of_def)
qed

theorem sumKernel_sum_of_squares_witness:
  "NewTemplateFromImage exact_ops ex_resize (\<lambda>c. c) ex_image 1 = Inr ex_built \<and>
   (\<exists>g edge.
      has_shape 3 3 g \<and> sobelEdge exact_ops g 3 3 50 = Inr edge \<and>
      kernel ex_built = mean_centred exact_ops edge 3 3) \<and>
   sumKernel ex_built =
     float_sum (map (\<lambda>c. float32_of exact_ops c * float32_of exact_ops c) (concat (kernel ex_built))) \<and>
   sumKernel ex_built = 720000"
proof -
  have wf: "0 \<le> Dx (ex_resize ex_image (target_width exact_ops ex_image 1))"
    "0 \<le> Dy (ex_resize ex_image (target_width exact_ops ex_image 1))"
    unfolding ex_tw by (simp_all add: ex_resize_def ex_image_def Dx_def Dy_def)
  have k: "kernelHeight ex_built = 3" "kernelWidth ex_built = 3" "sumKernel ex_built = 720000"
    by (simp_all add: ex_built_def)
  from sumKernel_sum_of_squares[OF ex_template_built wf, of 0] ex_template_built k
  show ?thesis by (simp only: k) blast
qed

text \<open>
  C9. Every match that \<open>FindMatch\<close> returns was emitted at a window \<open>(i, j)\<close>: its \<open>X\<close> and
  \<open>Y\<close> are \<open>int(float64(j) * 1 / scale)\<close> and \<open>int(float64(i) * 1 / scale)\<close> (in exact
  arithmetic \<open>j / scale\<close> and \<open>i / scale\<close> with the fraction discarded), its width and
  height are the dimensions of the image the template was built from, before resizing,
  and its score is the correlation of that window, which exceeds the threshold.
\<close>

theorem match_fields:
  fixes ops :: "(('d::{plus,minus,times,inverse,zero,one}), ('s::{plus,minus,times,inverse,zero,ord})) float_ops"
  assumes "NewTemplateFromImage ops rs gray img scale0 = Inr t"
    and "FindMatch ops t scene stride threshold scale = Some (Inr ms)"
    and "m \<in> set ms"
  shows "Width m = Dx img \<and> Height m = Dy img \<and>
         (\<exists>i j sp sq.
            window_sums ops t scene i j = Inr (sp, sq) \<and>
            X m = rescale ops scale j \<and> Y m = rescale ops scale i \<and>
            Score m = float32_of ops sp / denominator_of ops t sq \<and> threshold < Score m) \<and>
         rescale exact_ops r k = trunc (real_of_int k / r)"
proof -
  have o: "originalSize t = (Dx img, Dy img)"
    using assms(1) by (rule NewTemplateFromImage_originalSize)
  have "emitted ops t scene threshold scale m" using assms(2,3) by (rule FindMatch_emitted)
  then obtain i j sp sq where
    e: "window_sums ops t scene i j = Inr (sp, sq)"
      "threshold < float32_of ops sp / denominator_of ops t sq"
      "m = \<lparr> X = rescale ops scale j, Y = rescale ops scale i,
             Width = fst (originalSize t), Height = snd (originalSize t),
             Score = float32_of ops sp / denominator_of ops t sq \<rparr>"
    unfolding emitted_def by blast
  have r: "rescale exact_ops r k = trunc (real_of_int k / r)"
    by (simp add: rescale_def exact_ops_def)
  from e o r show ?thesis by auto
qed

theorem match_fields_witness:
  "NewTemplateFromImage exact_ops ex_resize (\<lambda>c. c) ex_image 1 = Inr ex_built \<and>
   FindMatch exact_ops ex_built ex_scene5 1 (1 / 2) (1 / 2) =
     Some (Inr [\<lparr> X = 2, Y = 0, Width = 3, Height = 3, Score = 1 \<rparr>]) \<and>
   Width \<lparr> X = 2, Y = 0, Width = 3, Height = 3, Score = (1::real) \<rparr> = Dx ex_image \<and>
   Height \<lparr> X = 2, Y = 0, Width = 3, Height = 3, Score = (1::real) \<rparr> = Dy ex_image \<and>
   (\<exists>i j sp sq.
      window_sums exact_ops ex_built ex_scene5 i j = Inr (sp, sq) \<and>
      (2::int) = rescale exact_ops (1 / 2) j \<and> (0::int) = rescale exact_ops (1 / 2) i \<and>
      (1::real) = float32_of exact_ops sp / denominator_of exact_ops ex_built sq) \<and>
   rescale exact_ops (1 / 2) 1 = 2"
proof -
  have m: "\<lparr> X = 2, Y = 0, Width = 3, Height = 3, Score = (1::real) \<rparr> \<in>
      set [\<lparr> X = 2, Y = 0, Width = 3, Height = 3, Score = 1 \<rparr>]" by simp
  have r: "trunc (real_of_int 1 / (1 / 2)) = 2" by (simp add: trunc_def)
  from match_fields[OF ex_template_built ex_scaled_run m, of "1 / 2" 1] ex_template_built ex_scaled_run r
  show ?thesis by auto
qed

end
